theory Spec2Isabelle
  imports Complex_Main "HOL-Library.AList"
begin

section \<open>Multi-Tenant/Solution.py: the token bucket\<close>

text \<open>
  Python floats are read as the real numbers they denote (rounding is not modelled), and
  Python's unbounded \<open>int\<close> is \<open>int\<close>. Every call of \<open>time.time()\<close> is an input of
  the model: the function receives the value the clock returned.
\<close>

text \<open>
  A raised exception: an instance of a subclass of \<open>Exception\<close>, given by the name of its
  class and its message.
\<close>

datatype py_exception = Exn (exn_type: string) (exn_msg: string)

definition KeyError :: "string \<Rightarrow> py_exception" where
  "KeyError k = Exn ''KeyError'' k"

record TokenBucket =
  capacity :: int
  refill_rate :: real
  current_tokens :: real
  last_checked :: real


text \<open>The refilled token count of line 19 (and of line 31).\<close>

definition refilled :: "TokenBucket \<Rightarrow> real \<Rightarrow> real" where
  "refilled b now =
     min (real_of_int (capacity b)) (current_tokens b + (now - last_checked b) * refill_rate b)"

text \<open>
  \<open>TokenBucket.allow_request\<close> (lines 15-25); \<open>now\<close> is the clock value read at line 17.
  The result is the returned boolean and the bucket after the call.
\<close>

definition TokenBucket_allow_request :: "TokenBucket \<Rightarrow> real \<Rightarrow> int \<Rightarrow> bool \<times> TokenBucket" where
  "TokenBucket_allow_request b now tokens =
     (let elapsed = now - last_checked b;
          b1 = b\<lparr>current_tokens :=
                  min (real_of_int (capacity b)) (current_tokens b + elapsed * refill_rate b)\<rparr>;
          b2 = b1\<lparr>last_checked := now\<rparr>
      in if tokens \<le> \<lfloor>current_tokens b2\<rfloor>
         then (True, b2\<lparr>current_tokens := current_tokens b2 - real_of_int tokens\<rparr>)
         else (False, b2))"


section \<open>Idempotency Keys/Solution.py: the in-memory store\<close>

text \<open>
  A cache entry is the tuple \<open>(timestamp, result, is_success)\<close>. The dictionary
  \<open>_results\<close> is an association list in insertion order, with distinct keys.
\<close>

type_synonym 'r entry = "real \<times> 'r \<times> bool"
type_synonym 'r results = "(string \<times> 'r entry) list"

text \<open>\<open>InMemoryIdempotentStorage.get\<close> (lines 30-32).\<close>

definition get :: "'r results \<Rightarrow> string \<Rightarrow> 'r entry option" where
  "get results k = map_of results k"

text \<open>
  \<open>InMemoryIdempotentStorage.set_success\<close> (lines 34-36); \<open>now\<close> is the clock value read
  at line 36. The argument \<open>ttl_seconds\<close> is not used by the body.
\<close>

definition set_success :: "'r results \<Rightarrow> real \<Rightarrow> string \<Rightarrow> 'r \<Rightarrow> int \<Rightarrow> 'r results" where
  "set_success results now k result ttl_seconds = AList.update k (now, result, True) results"

text \<open>
  The loop of lines 44-45: \<open>del\<close> raises \<open>KeyError\<close> on a key that is not in the
  dictionary, and the deletions made before it stay.
\<close>

fun del_all :: "string list \<Rightarrow> 'r results \<Rightarrow> py_exception option \<times> 'r results" where
  "del_all [] results = (None, results)"
| "del_all (k # ks) results =
     (if k \<in> fst ` set results then del_all ks (AList.delete k results)
      else (Some (KeyError k), results))"

text \<open>\<open>InMemoryIdempotentStorage.cleanup_expired\<close> (lines 38-45).\<close>

definition cleanup_expired ::
  "'r results \<Rightarrow> real \<Rightarrow> int \<Rightarrow> py_exception option \<times> 'r results" where
  "cleanup_expired results current_time ttl_seconds =
     (let expired = [k. (k, (ts, _, _)) \<leftarrow> results, current_time - ts > real_of_int ttl_seconds]
      in del_all expired results)"

section \<open>Idempotency Keys/Solution.py: the processor\<close>

text \<open>
  The abstract class \<open>IdempotentStorage\<close> (lines 11-22): a backend is three operations on
  its own state. \<open>get\<close> returns the entry or raises; \<open>set_success\<close> and
  \<open>cleanup_expired\<close> return the exception they raised, if any, and the state they leave.
  \<open>set_success\<close> also receives the clock value it may read.
\<close>

record ('st, 'r) IdempotentStorage =
  storage_get :: "'st \<Rightarrow> string \<Rightarrow> py_exception + 'r entry option"
  storage_set_success :: "'st \<Rightarrow> real \<Rightarrow> string \<Rightarrow> 'r \<Rightarrow> int \<Rightarrow> py_exception option \<times> 'st"
  storage_cleanup_expired :: "'st \<Rightarrow> real \<Rightarrow> int \<Rightarrow> py_exception option \<times> 'st"

definition InMemoryIdempotentStorage :: "('r results, 'r) IdempotentStorage" where
  "InMemoryIdempotentStorage =
     \<lparr>storage_get = (\<lambda>results k. Inr (get results k)),
      storage_set_success = (\<lambda>results now k result ttl. (None, set_success results now k result ttl)),
      storage_cleanup_expired = cleanup_expired\<rparr>"

text \<open>
  One call of \<open>process\<close> is a thread of control. Its position in lines 78-122, with the
  local variables that are live there:
  \<^item> \<open>Start\<close>: before line 79;
  \<^item> \<open>FastGet current_time\<close>: before the read of line 81;
  \<^item> \<open>FastHit result\<close>: before line 85;
  \<^item> \<open>Coord current_time\<close>: before the block of lines 88-98;
  \<^item> \<open>Acquire current_time key_lock\<close>: before line 102 (waiting for the lock);
  \<^item> \<open>DoubleCheck current_time key_lock\<close>: lock held, before the read of line 105;
  \<^item> \<open>Miss key_lock\<close>: before line 111;
  \<^item> \<open>Running key_lock\<close>: inside the call of the action, line 112;
  \<^item> \<open>SetSuccess key_lock result\<close>: before line 113;
  \<^item> \<open>Release key_lock outcome\<close>: in the \<open>finally\<close> block, before line 120, with the
    pending return value or exception;
  \<^item> \<open>Pop outcome\<close>: before lines 121-122;
  \<^item> \<open>Done outcome\<close>: the call has returned (\<open>Inr\<close>) or raised (\<open>Inl\<close>).
  A lock object is its address in the table \<open>locks\<close>.
\<close>

datatype 'r pc =
    Start
  | FastGet real
  | FastHit 'r
  | Coord real
  | Acquire real nat
  | DoubleCheck real nat
  | Miss nat
  | Running nat
  | SetSuccess nat 'r
  | Release nat "py_exception + 'r"
  | Pop "py_exception + 'r"
  | Done "py_exception + 'r"

text \<open>
  The wrapped action with its arguments bound: it reads and changes the caller's world
  \<open>'w\<close> and returns a result or raises.
\<close>

record ('w, 'r) call =
  idempotency_key :: string
  action_callable :: "'w \<Rightarrow> (py_exception + 'r) \<times> 'w"
  pc :: "'r pc"

text \<open>
  The cleanup thread's position in \<open>_run_cleanup_loop\<close> (lines 128-134): at the loop test,
  before the clock read of line 131, before the call of \<open>cleanup_expired\<close> with the time
  read, in the wait of line 134, or returned.
\<close>

datatype cleanup_pc = LoopTest | ReadTime | Sweep real | Wait | Exited

datatype log_record = Warning py_exception | Info string

text \<open>
  The processor with its environment. \<open>dicts\<close> is the table of dictionary objects:
  \<open>metrics\<close> is the address of \<open>self._metrics\<close>, and \<open>get_metrics\<close> allocates the
  dictionaries it returns. \<open>calls\<close> maps a thread to its call of \<open>process\<close>.
  \<open>invoked\<close> lists the invocations of wrapped actions, by thread and key, in order.
\<close>

record ('st, 'w, 'r) IdempotentProcessor =
  clock :: real
  world :: 'w
  storage :: 'st
  key_locks :: "string \<rightharpoonup> nat"
  locks :: "nat \<Rightarrow> bool"
  n_locks :: nat
  in_flight :: "string \<rightharpoonup> bool"
  dicts :: "nat \<Rightarrow> (string \<rightharpoonup> int)"
  n_dicts :: nat
  metrics :: nat
  shutdown_event :: bool
  cleanup_thread :: cleanup_pc
  calls :: "nat \<rightharpoonup> ('w, 'r) call"
  invoked :: "(nat \<times> string) list"
  logged :: "log_record list"

text \<open>
  \<open>IdempotentProcessor.__init__\<close> (lines 49-72) on a backend state \<open>st\<close>, in a world \<open>w\<close>
  at clock value \<open>t0\<close>: empty tables, an empty \<open>defaultdict\<close> at address 0, the event
  clear and the cleanup thread started.
\<close>

definition IdempotentProcessor_init :: "'st \<Rightarrow> 'w \<Rightarrow> real \<Rightarrow> ('st, 'w, 'r) IdempotentProcessor" where
  "IdempotentProcessor_init st w t0 =
     \<lparr>clock = t0, world = w, storage = st, key_locks = Map.empty, locks = (\<lambda>_. False),
      n_locks = 0, in_flight = Map.empty, dicts = (\<lambda>_. Map.empty), n_dicts = 1, metrics = 0,
      shutdown_event = False, cleanup_thread = LoopTest, calls = Map.empty, invoked = [],
      logged = []\<rparr>"

text \<open>\<open>_record_metric\<close> (lines 74-76); a \<open>defaultdict(int)\<close> reads a missing name as 0.\<close>

definition record_metric ::
  "string \<Rightarrow> ('st, 'w, 'r) IdempotentProcessor \<Rightarrow> ('st, 'w, 'r) IdempotentProcessor" where
  "record_metric name s =
     s\<lparr>dicts := (dicts s)(metrics s :=
          (dicts s (metrics s))(name \<mapsto>
             (case dicts s (metrics s) name of None \<Rightarrow> 0 | Some c \<Rightarrow> c) + 1))\<rparr>"

text \<open>
  \<open>get_metrics\<close> (lines 124-126): \<open>dict(self._metrics)\<close> is a new dictionary object with
  the same items; its address is returned.
\<close>

definition get_metrics ::
  "('st, 'w, 'r) IdempotentProcessor \<Rightarrow> nat \<times> ('st, 'w, 'r) IdempotentProcessor" where
  "get_metrics s =
     (n_dicts s, s\<lparr>dicts := (dicts s)(n_dicts s := dicts s (metrics s)), n_dicts := Suc (n_dicts s)\<rparr>)"

text \<open>
  The test of lines 82-84 and of lines 106-108 on what \<open>storage.get\<close> returned: the
  cached result when the entry is there, successful and within the TTL of
  \<open>current_time\<close>.
\<close>

definition cached_result :: "int \<Rightarrow> real \<Rightarrow> 'r entry option \<Rightarrow> 'r option" where
  "cached_result ttl_seconds current_time cached =
     (case cached of
        None \<Rightarrow> None
      | Some (timestamp, result, is_success) \<Rightarrow>
          if is_success \<and> current_time - timestamp \<le> real_of_int ttl_seconds
          then Some result else None)"

text \<open>
  The block of lines 88-98 under the coordination lock: look the key's lock up or create
  it, and either count a concurrent wait or mark the key in flight. It gives the lock.
\<close>

definition coordinate ::
  "string \<Rightarrow> ('st, 'w, 'r) IdempotentProcessor \<Rightarrow> nat \<times> ('st, 'w, 'r) IdempotentProcessor" where
  "coordinate k s =
     (let (key_lock, s1) =
            (case key_locks s k of
               None \<Rightarrow> (n_locks s,
                         s\<lparr>key_locks := (key_locks s)(k \<mapsto> n_locks s),
                           locks := (locks s)(n_locks s := False),
                           n_locks := Suc (n_locks s)\<rparr>)
             | Some l \<Rightarrow> (l, s))
      in if k \<in> dom (in_flight s1)
         then (key_lock, record_metric ''concurrent_wait'' s1)
         else (key_lock, s1\<lparr>in_flight := (in_flight s1)(k \<mapsto> True)\<rparr>))"

definition goto ::
  "nat \<Rightarrow> ('w, 'r) call \<Rightarrow> 'r pc \<Rightarrow> ('st, 'w, 'r) IdempotentProcessor
     \<Rightarrow> ('st, 'w, 'r) IdempotentProcessor" where
  "goto tid c p s = s\<lparr>calls := (calls s)(tid \<mapsto> c\<lparr>pc := p\<rparr>)\<rparr>"

text \<open>
  One step of the call \<open>c\<close> of thread \<open>tid\<close> in \<open>process\<close> (lines 78-122). \<open>None\<close>: the
  thread cannot move (it waits for a held lock, or it has finished). The \<open>return\<close> of
  lines 109 and 114 and the re-raise of line 117 run the \<open>finally\<close> block first;
  \<open>acquired\<close> is true there. An exception of the read of line 81 leaves \<open>process\<close> at
  once. A step is what the code does under one lock, or one access to shared state: the
  block of lines 88-98 under the coordination lock, a call of the store under the
  store's lock, an increment under the metrics lock. The action is the caller's code: its
  effect on the world and its outcome are taken when it returns. \<open>invoked\<close> is
  extended when the action is called. \<open>release\<close> raises on a lock that is not held;
  \<open>release_of_held_lock\<close> below shows that line 120 never does.
\<close>

definition process_step ::
  "('st, 'r) IdempotentStorage \<Rightarrow> int \<Rightarrow> nat \<Rightarrow> ('w, 'r) call
     \<Rightarrow> ('st, 'w, 'r) IdempotentProcessor \<Rightarrow> ('st, 'w, 'r) IdempotentProcessor option" where
  "process_step B ttl_seconds tid c s =
     (case pc c of
        Start \<Rightarrow> Some (goto tid c (FastGet (clock s)) s)
      | FastGet current_time \<Rightarrow>
          (case storage_get B (storage s) (idempotency_key c) of
             Inl e \<Rightarrow> Some (goto tid c (Done (Inl e)) s)
           | Inr cached \<Rightarrow>
               (case cached_result ttl_seconds current_time cached of
                  Some result \<Rightarrow> Some (goto tid c (FastHit result) s)
                | None \<Rightarrow> Some (goto tid c (Coord current_time) s)))
      | FastHit result \<Rightarrow> Some (goto tid c (Done (Inr result)) (record_metric ''cache_hit'' s))
      | Coord current_time \<Rightarrow>
          (let (key_lock, s1) = coordinate (idempotency_key c) s
           in Some (goto tid c (Acquire current_time key_lock) s1))
      | Acquire current_time key_lock \<Rightarrow>
          if locks s key_lock then None
          else Some (goto tid c (DoubleCheck current_time key_lock)
                       (s\<lparr>locks := (locks s)(key_lock := True)\<rparr>))
      | DoubleCheck current_time key_lock \<Rightarrow>
          (case storage_get B (storage s) (idempotency_key c) of
             Inl e \<Rightarrow> Some (goto tid c (Release key_lock (Inl e)) s)
           | Inr cached \<Rightarrow>
               (case cached_result ttl_seconds current_time cached of
                  Some result \<Rightarrow> Some (goto tid c (Release key_lock (Inr result)) s)
                | None \<Rightarrow> Some (goto tid c (Miss key_lock) s)))
      | Miss key_lock \<Rightarrow>
          Some (goto tid c (Running key_lock)
                  (record_metric ''cache_miss''
                     (s\<lparr>invoked := invoked s @ [(tid, idempotency_key c)]\<rparr>)))
      | Running key_lock \<Rightarrow>
          (case action_callable c (world s) of
             (Inl e, w) \<Rightarrow> Some (goto tid c (Release key_lock (Inl e)) (s\<lparr>world := w\<rparr>))
           | (Inr result, w) \<Rightarrow> Some (goto tid c (SetSuccess key_lock result) (s\<lparr>world := w\<rparr>)))
      | SetSuccess key_lock result \<Rightarrow>
          (case storage_set_success B (storage s) (clock s) (idempotency_key c) result ttl_seconds of
             (Some e, st) \<Rightarrow> Some (goto tid c (Release key_lock (Inl e)) (s\<lparr>storage := st\<rparr>))
           | (None, st) \<Rightarrow> Some (goto tid c (Release key_lock (Inr result)) (s\<lparr>storage := st\<rparr>)))
      | Release key_lock outcome \<Rightarrow>
          Some (goto tid c (Pop outcome) (s\<lparr>locks := (locks s)(key_lock := False)\<rparr>))
      | Pop outcome \<Rightarrow>
          Some (goto tid c (Done outcome) (s\<lparr>in_flight := (in_flight s)(idempotency_key c := None)\<rparr>))
      | Done outcome \<Rightarrow> None)"

text \<open>
  One step of \<open>_run_cleanup_loop\<close> (lines 128-134). The handler of lines 132-133 logs the
  exception as a warning and the loop goes on to the wait.
\<close>

definition run_cleanup_loop_step ::
  "('st, 'r) IdempotentStorage \<Rightarrow> int \<Rightarrow> ('st, 'w, 'r) IdempotentProcessor
     \<Rightarrow> ('st, 'w, 'r) IdempotentProcessor option" where
  "run_cleanup_loop_step B ttl_seconds s =
     (case cleanup_thread s of
        LoopTest \<Rightarrow> Some (s\<lparr>cleanup_thread := (if shutdown_event s then Exited else ReadTime)\<rparr>)
      | ReadTime \<Rightarrow> Some (s\<lparr>cleanup_thread := Sweep (clock s)\<rparr>)
      | Sweep now \<Rightarrow>
          (case storage_cleanup_expired B (storage s) now ttl_seconds of
             (None, st) \<Rightarrow> Some (s\<lparr>storage := st, cleanup_thread := Wait\<rparr>)
           | (Some e, st) \<Rightarrow>
               Some (s\<lparr>storage := st, logged := logged s @ [Warning e], cleanup_thread := Wait\<rparr>))
      | Wait \<Rightarrow> Some (s\<lparr>cleanup_thread := LoopTest\<rparr>)
      | Exited \<Rightarrow> None)"

text \<open>
  \<open>shutdown\<close> (lines 136-140). The \<open>join\<close> of line 139 only waits, for the cleanup thread
  or for the timeout; it changes nothing of the processor.
\<close>

definition shutdown :: "('st, 'w, 'r) IdempotentProcessor \<Rightarrow> ('st, 'w, 'r) IdempotentProcessor" where
  "shutdown s =
     (if \<not> shutdown_event s
      then s\<lparr>shutdown_event := True,
             logged := logged s @ [Info ''IdempotentProcessor shutdown complete.'']\<rparr>
      else s)"

text \<open>
  What can happen next: a thread calls \<open>process\<close>, a thread in \<open>process\<close> moves, the
  cleanup thread moves, time passes, somebody calls \<open>shutdown\<close> or \<open>get_metrics\<close>. The
  clock does not go back.
\<close>

datatype ('w, 'r) event =
    Call nat string "'w \<Rightarrow> (py_exception + 'r) \<times> 'w"
  | Step nat
  | Janitor
  | Tick real
  | Shutdown
  | GetMetrics

definition step ::
  "('st, 'r) IdempotentStorage \<Rightarrow> int \<Rightarrow> ('w, 'r) event \<Rightarrow> ('st, 'w, 'r) IdempotentProcessor
     \<Rightarrow> ('st, 'w, 'r) IdempotentProcessor option" where
  "step B ttl_seconds ev s =
     (case ev of
        Call tid k a \<Rightarrow>
          if tid \<in> dom (calls s) then None
          else Some (s\<lparr>calls := (calls s)(tid \<mapsto>
                       \<lparr>idempotency_key = k, action_callable = a, pc = Start\<rparr>)\<rparr>)
      | Step tid \<Rightarrow>
          (case calls s tid of None \<Rightarrow> None | Some c \<Rightarrow> process_step B ttl_seconds tid c s)
      | Janitor \<Rightarrow> run_cleanup_loop_step B ttl_seconds s
      | Tick d \<Rightarrow> if 0 \<le> d then Some (s\<lparr>clock := clock s + d\<rparr>) else None
      | Shutdown \<Rightarrow> Some (shutdown s)
      | GetMetrics \<Rightarrow> Some (snd (get_metrics s)))"

text \<open>A schedule is a list of events; \<open>None\<close> when one of them cannot happen.\<close>

fun run ::
  "('st, 'r) IdempotentStorage \<Rightarrow> int \<Rightarrow> ('w, 'r) event list \<Rightarrow> ('st, 'w, 'r) IdempotentProcessor
     \<Rightarrow> ('st, 'w, 'r) IdempotentProcessor option" where
  "run B ttl_seconds [] s = Some s"
| "run B ttl_seconds (ev # evs) s =
     (case step B ttl_seconds ev s of None \<Rightarrow> None | Some s1 \<Rightarrow> run B ttl_seconds evs s1)"

text \<open>
  A call of \<open>process\<close> that runs from line 79 to its return or raise with no other thread
  in between: the thread moves until it is done. Ten steps reach the end of the longest
  path; \<open>None\<close> when the thread has to wait for a lock that is held.
\<close>

fun run_call ::
  "('st, 'r) IdempotentStorage \<Rightarrow> int \<Rightarrow> nat \<Rightarrow> nat \<Rightarrow> ('st, 'w, 'r) IdempotentProcessor
     \<Rightarrow> ((py_exception + 'r) \<times> ('st, 'w, 'r) IdempotentProcessor) option" where
  "run_call B ttl_seconds 0 tid s = None"
| "run_call B ttl_seconds (Suc n) tid s =
     (case calls s tid of
        None \<Rightarrow> None
      | Some c \<Rightarrow>
          (case pc c of
             Done outcome \<Rightarrow> Some (outcome, s)
           | _ \<Rightarrow>
               (case process_step B ttl_seconds tid c s of
                  None \<Rightarrow> None
                | Some s1 \<Rightarrow> run_call B ttl_seconds n tid s1)))"

definition process ::
  "('st, 'r) IdempotentStorage \<Rightarrow> int \<Rightarrow> nat \<Rightarrow> string \<Rightarrow> ('w \<Rightarrow> (py_exception + 'r) \<times> 'w)
     \<Rightarrow> ('st, 'w, 'r) IdempotentProcessor
     \<Rightarrow> ((py_exception + 'r) \<times> ('st, 'w, 'r) IdempotentProcessor) option" where
  "process B ttl_seconds tid k a s =
     (case step B ttl_seconds (Call tid k a) s of
        None \<Rightarrow> None
      | Some s1 \<Rightarrow> run_call B ttl_seconds 11 tid s1)"


section \<open>Notions used in the statements and the invariants\<close>

text \<open>A counter of the metrics table; a name that is not in the table counts 0.\<close>

definition metric :: "('st, 'w, 'r) IdempotentProcessor \<Rightarrow> string \<Rightarrow> int" where
  "metric s name = (case dicts s (metrics s) name of None \<Rightarrow> 0 | Some c \<Rightarrow> c)"

text \<open>The lock a call holds (between lines 102 and 120), and the lock it holds or waits for.\<close>

fun holds_lock :: "'r pc \<Rightarrow> nat option" where
  "holds_lock (DoubleCheck ct l) = Some l"
| "holds_lock (Miss l) = Some l"
| "holds_lock (Running l) = Some l"
| "holds_lock (SetSuccess l r) = Some l"
| "holds_lock (Release l outcome) = Some l"
| "holds_lock _ = None"

fun lock_of :: "'r pc \<Rightarrow> nat option" where
  "lock_of (Acquire ct l) = Some l"
| "lock_of p = holds_lock p"

text \<open>
  The per-key locks: every registered lock is allocated, distinct keys have distinct
  locks, a call's \<open>key_lock\<close> is the registered lock of its key, a lock has at most one
  holder, and it is held exactly when some call holds it.
\<close>

definition lock_inv :: "('st, 'w, 'r) IdempotentProcessor \<Rightarrow> bool" where
  "lock_inv s =
     ((\<forall>k l. key_locks s k = Some l \<longrightarrow> l < n_locks s)
      \<and> (\<forall>k k' l. key_locks s k = Some l \<and> key_locks s k' = Some l \<longrightarrow> k = k')
      \<and> (\<forall>tid c l. calls s tid = Some c \<and> lock_of (pc c) = Some l
            \<longrightarrow> key_locks s (idempotency_key c) = Some l)
      \<and> (\<forall>tid tid' c c' l. calls s tid = Some c \<and> calls s tid' = Some c'
            \<and> holds_lock (pc c) = Some l \<and> holds_lock (pc c') = Some l \<longrightarrow> tid = tid')
      \<and> (\<forall>l. locks s l = (\<exists>tid c. calls s tid = Some c \<and> holds_lock (pc c) = Some l)))"

text \<open>The value of \<open>current_time\<close> a call carries, where it still needs it.\<close>

fun time_of :: "'r pc \<Rightarrow> real option" where
  "time_of (FastGet ct) = Some ct"
| "time_of (Coord ct) = Some ct"
| "time_of (Acquire ct l) = Some ct"
| "time_of (DoubleCheck ct l) = Some ct"
| "time_of _ = None"

text \<open>Every time a thread has read is a past value of the clock.\<close>

definition time_inv :: "('st, 'w, 'r) IdempotentProcessor \<Rightarrow> bool" where
  "time_inv s =
     ((\<forall>t c ct. calls s t = Some c \<and> time_of (pc c) = Some ct \<longrightarrow> ct \<le> clock s)
      \<and> (\<forall>now. cleanup_thread s = Sweep now \<longrightarrow> now \<le> clock s))"

text \<open>An event of the background: the cleanup thread moves, or time passes.\<close>

fun background :: "('w, 'r) event \<Rightarrow> bool" where
  "background Janitor = True"
| "background (Tick d) = True"
| "background _ = False"

section \<open>The actions of test.py\<close>

text \<open>
  The world of the tests is the counter \<open>call_count\<close>. \<open>stable_action\<close> and
  \<open>charge_action\<close> count the call and return; here the returned value is the count, so
  that two executions are told apart. \<open>flaky_action\<close> counts the call and raises.
\<close>

definition counting_action :: "nat \<Rightarrow> (py_exception + nat) \<times> nat" where
  "counting_action call_count = (Inr (Suc call_count), Suc call_count)"

definition flaky_action :: "nat \<Rightarrow> (py_exception + nat) \<times> nat" where
  "flaky_action call_count = (Inl (Exn ''ValueError'' ''Payment failed''), Suc call_count)"

text \<open>
  The processor the tests construct, on the default in-memory store, with \<open>call_count\<close>
  at 0; the clock is read from its construction.
\<close>

definition test_processor :: "(nat results, nat, nat) IdempotentProcessor" where
  "test_processor = IdempotentProcessor_init [] 0 0"

section \<open>Invariants of a processor on the in-memory store\<close>

text \<open>
  The store is a dictionary, and every entry is a success stamped with a past value of the
  clock.
\<close>

definition store_inv :: "('r results, 'w, 'r) IdempotentProcessor \<Rightarrow> bool" where
  "store_inv s =
     (distinct (map fst (storage s))
      \<and> (\<forall>k ts r ok. (k, (ts, r, ok)) \<in> set (storage s) \<longrightarrow> ok \<and> ts \<le> clock s))"

text \<open>No call of \<open>process\<close> with key \<open>k\<close> is under way.\<close>

definition quiescent :: "string \<Rightarrow> ('st, 'w, 'r) IdempotentProcessor \<Rightarrow> bool" where
  "quiescent k s =
     (\<forall>t c. calls s t = Some c \<and> idempotency_key c = k \<longrightarrow> (\<exists>outcome. pc c = Done outcome))"








section \<open>Properties of the token bucket\<close>

text \<open>
  C6. \<open>allow_request\<close> first refills the bucket to
  \<open>min(capacity, available + elapsed * refill_rate)\<close> and stamps the time of the check;
  it returns true exactly when the floor of the refilled count is at least the requested
  number of tokens, deducting them in that case and leaving the refilled count as it is
  otherwise. Capacity and refill rate never change.
\<close>

theorem allow_request_refill_then_spend:
  "fst (TokenBucket_allow_request b now t) = (t \<le> \<lfloor>refilled b now\<rfloor>)
   \<and> current_tokens (snd (TokenBucket_allow_request b now t)) =
       (if t \<le> \<lfloor>refilled b now\<rfloor> then refilled b now - real_of_int t else refilled b now)
   \<and> last_checked (snd (TokenBucket_allow_request b now t)) = now
   \<and> capacity (snd (TokenBucket_allow_request b now t)) = capacity b
   \<and> refill_rate (snd (TokenBucket_allow_request b now t)) = refill_rate b
   \<and> refilled b now =
       min (real_of_int (capacity b)) (current_tokens b + (now - last_checked b) * refill_rate b)"
  by (simp add: TokenBucket_allow_request_def refilled_def Let_def)



section \<open>Properties of the in-memory store\<close>

lemma del_all_filter:
  "distinct (map fst results) \<Longrightarrow> set ks \<subseteq> fst ` set results \<Longrightarrow> distinct ks \<Longrightarrow>
   del_all ks results = (None, filter (\<lambda>(k, e). k \<notin> set ks) results)"
proof (induction ks arbitrary: results)
  case Nil
  then show ?case by simp
next
  case (Cons k ks)
  have d: "distinct (map fst (AList.delete k results))"
    using Cons.prems(1) by (simp add: distinct_delete)
  have sub: "set ks \<subseteq> fst ` set (AList.delete k results)"
  proof
    fix x assume x: "x \<in> set ks"
    then have "x \<noteq> k" using Cons.prems(3) by auto
    moreover obtain e where "(x, e) \<in> set results"
      using x Cons.prems(2) by auto
    ultimately show "x \<in> fst ` set (AList.delete k results)"
      by (force simp: AList.delete_eq)
  qed
  have "del_all ks (AList.delete k results) =
          (None, filter (\<lambda>(k', e). k' \<notin> set ks) (AList.delete k results))"
    using Cons.IH [OF d sub] Cons.prems(3) by simp
  moreover have "filter (\<lambda>(k', e). k' \<notin> set ks) (AList.delete k results) =
                 filter (\<lambda>(k', e). k' \<notin> set (k # ks)) results"
    by (auto simp: AList.delete_eq intro!: filter_cong)
  ultimately show ?case using Cons.prems(2) by simp
qed

lemma expired_keys:
  "[k. (k, (ts, _, _)) \<leftarrow> results, now - ts > ttl] =
   map fst (filter (\<lambda>(k, (ts, r, ok)). now - ts > ttl) results)"
  by (induction results) auto

lemma key_in_filter:
  "distinct (map fst xs) \<Longrightarrow> (k, e) \<in> set xs \<Longrightarrow> (k \<in> fst ` set (filter P xs)) = P (k, e)"
proof (induction xs)
  case Nil
  then show ?case by simp
next
  case (Cons x xs)
  show ?case
  proof (cases "x = (k, e)")
    case True
    then have "k \<notin> fst ` set xs" using Cons.prems(1) by auto
    then have "k \<notin> fst ` set (filter P xs)" by auto
    then show ?thesis using True by auto
  next
    case False
    then have in_xs: "(k, e) \<in> set xs" using Cons.prems(2) by auto
    then have "fst x \<noteq> k" using Cons.prems(1) by (auto simp: image_iff)
    then show ?thesis using Cons.IH in_xs Cons.prems(1) by auto
  qed
qed

lemma cleanup_expired_filter:
  assumes "distinct (map fst results)"
  shows "cleanup_expired results now ttl =
           (None, filter (\<lambda>(k, (ts, r, ok)). now - ts \<le> real_of_int ttl) results)"
proof -
  define P :: "string \<times> 'a entry \<Rightarrow> bool"
    where "P = (\<lambda>(k, (ts, r, ok)). now - ts > real_of_int ttl)"
  define ks where "ks = map fst (filter P results)"
  have dk: "distinct ks"
    using assms by (simp add: ks_def distinct_map_filter)
  have sub: "set ks \<subseteq> fst ` set results"
    by (auto simp: ks_def)
  have "filter (\<lambda>(k, e). k \<notin> set ks) results = filter (\<lambda>x. \<not> P x) results"
  proof (rule filter_cong [OF refl])
    fix x assume x: "x \<in> set results"
    obtain k e where ke: "x = (k, e)" by (cases x)
    have "(k \<in> set ks) = P (k, e)"
      using key_in_filter [OF assms, of k e P] x ke by (simp add: ks_def)
    then show "(case x of (k, e) \<Rightarrow> k \<notin> set ks) = (\<not> P x)"
      by (simp add: ke)
  qed
  also have "\<dots> = filter (\<lambda>(k, (ts, r, ok)). now - ts \<le> real_of_int ttl) results"
    by (rule filter_cong [OF refl]) (auto simp: P_def not_less)
  finally have eq: "filter (\<lambda>(k, e). k \<notin> set ks) results =
                    filter (\<lambda>(k, (ts, r, ok)). now - ts \<le> real_of_int ttl) results" .
  have "[k. (k, (ts, _, _)) \<leftarrow> results, now - ts > real_of_int ttl] = ks"
    unfolding ks_def P_def by (rule expired_keys)
  then show ?thesis
    using del_all_filter [OF assms sub dk] eq
    by (simp add: cleanup_expired_def)
qed

text \<open>
  C5. On a dictionary (distinct keys), \<open>cleanup_expired(now, ttl)\<close> raises nothing and
  keeps, in their order and unchanged, exactly the entries with
  \<open>now - timestamp \<le> ttl\<close>: a key is present afterwards iff it was present with such an
  entry, and it maps to the same entry.
\<close>

theorem cleanup_expired_removes_exactly_expired:
  assumes "distinct (map fst results)"
  shows "\<exists>results'. cleanup_expired results now ttl = (None, results')
           \<and> results' = filter (\<lambda>(k, (ts, r, ok)). now - ts \<le> real_of_int ttl) results
           \<and> distinct (map fst results')
           \<and> (\<forall>k. get results' k =
                  (case get results k of
                     None \<Rightarrow> None
                   | Some (ts, r, ok) \<Rightarrow>
                       if now - ts \<le> real_of_int ttl then Some (ts, r, ok) else None))"
proof -
  let ?Q = "\<lambda>(k :: string, (ts :: real, r :: 'a, ok :: bool)). now - ts \<le> real_of_int ttl"
  have "map_of (filter ?Q results) k =
          (case map_of results k of
             None \<Rightarrow> None
           | Some (ts, r, ok) \<Rightarrow> if now - ts \<le> real_of_int ttl then Some (ts, r, ok) else None)"
    for k
    using assms by (induction results) (auto simp: image_iff split: option.splits)
  then show ?thesis
    using assms cleanup_expired_filter [OF assms, of now ttl]
    by (simp add: get_def distinct_map_filter)
qed

theorem cleanup_expired_removes_exactly_expired_witness:
  "cleanup_expired [(''a'', (0, 1 :: nat, True)), (''b'', (5, 2, True)), (''c'', (9, 3, True))] 10 5
     = (None, [(''b'', (5, 2, True)), (''c'', (9, 3, True))])"
proof -
  let ?xs = "[(''a'', (0 :: real, 1 :: nat, True)), (''b'', (5, 2, True)), (''c'', (9, 3, True))]"
  have d: "distinct (map fst ?xs)"
    by simp
  from cleanup_expired_removes_exactly_expired [OF d, of 10 5]
  have "cleanup_expired ?xs 10 5 =
          (None, filter (\<lambda>(k, (ts, r, ok)). 10 - ts \<le> real_of_int 5) ?xs)"
    by blast
  then show ?thesis
    by simp
qed

section \<open>The steps of the processor\<close>

lemmas step_defs = step_def process_step_def goto_def coordinate_def record_metric_def
  run_cleanup_loop_step_def shutdown_def get_metrics_def

lemmas step_splits = event.splits option.splits pc.splits sum.splits prod.splits if_splits
  cleanup_pc.splits

lemma goto_fields [simp]:
  "clock (goto tid c p s) = clock s" "world (goto tid c p s) = world s"
  "storage (goto tid c p s) = storage s" "key_locks (goto tid c p s) = key_locks s"
  "locks (goto tid c p s) = locks s" "n_locks (goto tid c p s) = n_locks s"
  "in_flight (goto tid c p s) = in_flight s" "dicts (goto tid c p s) = dicts s"
  "n_dicts (goto tid c p s) = n_dicts s" "metrics (goto tid c p s) = metrics s"
  "shutdown_event (goto tid c p s) = shutdown_event s"
  "cleanup_thread (goto tid c p s) = cleanup_thread s"
  "invoked (goto tid c p s) = invoked s" "logged (goto tid c p s) = logged s"
  by (simp_all add: goto_def)

lemma goto_calls: "calls (goto tid c p s) = (calls s)(tid \<mapsto> c\<lparr>pc := p\<rparr>)"
  by (simp add: goto_def)

lemma record_metric_fields [simp]:
  "clock (record_metric n s) = clock s" "world (record_metric n s) = world s"
  "storage (record_metric n s) = storage s" "key_locks (record_metric n s) = key_locks s"
  "locks (record_metric n s) = locks s" "n_locks (record_metric n s) = n_locks s"
  "in_flight (record_metric n s) = in_flight s"
  "n_dicts (record_metric n s) = n_dicts s" "metrics (record_metric n s) = metrics s"
  "shutdown_event (record_metric n s) = shutdown_event s"
  "cleanup_thread (record_metric n s) = cleanup_thread s"
  "invoked (record_metric n s) = invoked s" "logged (record_metric n s) = logged s"
  "calls (record_metric n s) = calls s"
  by (simp_all add: record_metric_def)

lemma shutdown_fields [simp]:
  "clock (shutdown s) = clock s" "world (shutdown s) = world s"
  "storage (shutdown s) = storage s" "key_locks (shutdown s) = key_locks s"
  "locks (shutdown s) = locks s" "n_locks (shutdown s) = n_locks s"
  "in_flight (shutdown s) = in_flight s" "dicts (shutdown s) = dicts s"
  "n_dicts (shutdown s) = n_dicts s" "metrics (shutdown s) = metrics s"
  "shutdown_event (shutdown s)"
  "cleanup_thread (shutdown s) = cleanup_thread s"
  "invoked (shutdown s) = invoked s" "calls (shutdown s) = calls s"
  by (simp_all add: shutdown_def)

lemma get_metrics_fields [simp]:
  "clock (snd (get_metrics s)) = clock s" "world (snd (get_metrics s)) = world s"
  "storage (snd (get_metrics s)) = storage s" "key_locks (snd (get_metrics s)) = key_locks s"
  "locks (snd (get_metrics s)) = locks s" "n_locks (snd (get_metrics s)) = n_locks s"
  "in_flight (snd (get_metrics s)) = in_flight s"
  "n_dicts (snd (get_metrics s)) = Suc (n_dicts s)" "metrics (snd (get_metrics s)) = metrics s"
  "shutdown_event (snd (get_metrics s)) = shutdown_event s"
  "cleanup_thread (snd (get_metrics s)) = cleanup_thread s"
  "invoked (snd (get_metrics s)) = invoked s" "logged (snd (get_metrics s)) = logged s"
  "calls (snd (get_metrics s)) = calls s"
  "dicts (snd (get_metrics s)) = (dicts s)(n_dicts s := dicts s (metrics s))"
  "fst (get_metrics s) = n_dicts s"
  by (simp_all add: get_metrics_def)

lemma run_invariant:
  assumes "\<And>ev s s'. P s \<Longrightarrow> step B ttl ev s = Some s' \<Longrightarrow> P s'"
  shows "P s \<Longrightarrow> run B ttl evs s = Some s' \<Longrightarrow> P s'"
proof (induction evs arbitrary: s)
  case Nil
  then show ?case by simp
next
  case (Cons ev evs)
  then show ?case using assms by (auto split: option.splits)
qed

lemma run_append:
  "run B ttl (evs @ evs') s =
     (case run B ttl evs s of None \<Rightarrow> None | Some s1 \<Rightarrow> run B ttl evs' s1)"
  by (induction evs arbitrary: s) (auto split: option.splits)

text \<open>The steps, one case for each branch of the code.\<close>

lemma step_cases [consumes 1, case_names Call Start FastGet_raise FastGet_hit FastGet_miss FastHit
    Coord Acquire DoubleCheck_raise DoubleCheck_hit DoubleCheck_miss Miss Running_raise
    Running_return SetSuccess_raise SetSuccess_ok Release Pop LoopTest ReadTime Sweep_ok
    Sweep_raise Wait Tick Shutdown GetMetrics]:
  assumes "step B ttl ev s = Some s'"
  obtains
    (Call) tid k a where "ev = Call tid k a" "calls s tid = None"
      "s' = s\<lparr>calls := (calls s)(tid \<mapsto> \<lparr>idempotency_key = k, action_callable = a, pc = Start\<rparr>)\<rparr>"
  | (Start) tid c where "ev = Step tid" "calls s tid = Some c" "pc c = Start"
      "s' = goto tid c (FastGet (clock s)) s"
  | (FastGet_raise) tid c ct e where "ev = Step tid" "calls s tid = Some c" "pc c = FastGet ct"
      "storage_get B (storage s) (idempotency_key c) = Inl e"
      "s' = goto tid c (Done (Inl e)) s"
  | (FastGet_hit) tid c ct cached r where "ev = Step tid" "calls s tid = Some c" "pc c = FastGet ct"
      "storage_get B (storage s) (idempotency_key c) = Inr cached"
      "cached_result ttl ct cached = Some r"
      "s' = goto tid c (FastHit r) s"
  | (FastGet_miss) tid c ct cached where "ev = Step tid" "calls s tid = Some c" "pc c = FastGet ct"
      "storage_get B (storage s) (idempotency_key c) = Inr cached"
      "cached_result ttl ct cached = None"
      "s' = goto tid c (Coord ct) s"
  | (FastHit) tid c r where "ev = Step tid" "calls s tid = Some c" "pc c = FastHit r"
      "s' = goto tid c (Done (Inr r)) (record_metric ''cache_hit'' s)"
  | (Coord) tid c ct l s1 where "ev = Step tid" "calls s tid = Some c" "pc c = Coord ct"
      "coordinate (idempotency_key c) s = (l, s1)"
      "s' = goto tid c (Acquire ct l) s1"
      "calls s1 = calls s" "clock s1 = clock s" "storage s1 = storage s" "world s1 = world s"
      "invoked s1 = invoked s" "cleanup_thread s1 = cleanup_thread s"
      "shutdown_event s1 = shutdown_event s" "logged s1 = logged s" "metrics s1 = metrics s"
      "n_dicts s1 = n_dicts s"
  | (Acquire) tid c ct l where "ev = Step tid" "calls s tid = Some c" "pc c = Acquire ct l"
      "\<not> locks s l"
      "s' = goto tid c (DoubleCheck ct l) (s\<lparr>locks := (locks s)(l := True)\<rparr>)"
  | (DoubleCheck_raise) tid c ct l e where "ev = Step tid" "calls s tid = Some c"
      "pc c = DoubleCheck ct l"
      "storage_get B (storage s) (idempotency_key c) = Inl e"
      "s' = goto tid c (Release l (Inl e)) s"
  | (DoubleCheck_hit) tid c ct l cached r where "ev = Step tid" "calls s tid = Some c"
      "pc c = DoubleCheck ct l"
      "storage_get B (storage s) (idempotency_key c) = Inr cached"
      "cached_result ttl ct cached = Some r"
      "s' = goto tid c (Release l (Inr r)) s"
  | (DoubleCheck_miss) tid c ct l cached where "ev = Step tid" "calls s tid = Some c"
      "pc c = DoubleCheck ct l"
      "storage_get B (storage s) (idempotency_key c) = Inr cached"
      "cached_result ttl ct cached = None"
      "s' = goto tid c (Miss l) s"
  | (Miss) tid c l where "ev = Step tid" "calls s tid = Some c" "pc c = Miss l"
      "s' = goto tid c (Running l)
              (record_metric ''cache_miss'' (s\<lparr>invoked := invoked s @ [(tid, idempotency_key c)]\<rparr>))"
  | (Running_raise) tid c l e w where "ev = Step tid" "calls s tid = Some c" "pc c = Running l"
      "action_callable c (world s) = (Inl e, w)"
      "s' = goto tid c (Release l (Inl e)) (s\<lparr>world := w\<rparr>)"
  | (Running_return) tid c l r w where "ev = Step tid" "calls s tid = Some c" "pc c = Running l"
      "action_callable c (world s) = (Inr r, w)"
      "s' = goto tid c (SetSuccess l r) (s\<lparr>world := w\<rparr>)"
  | (SetSuccess_raise) tid c l r e st where "ev = Step tid" "calls s tid = Some c"
      "pc c = SetSuccess l r"
      "storage_set_success B (storage s) (clock s) (idempotency_key c) r ttl = (Some e, st)"
      "s' = goto tid c (Release l (Inl e)) (s\<lparr>storage := st\<rparr>)"
  | (SetSuccess_ok) tid c l r st where "ev = Step tid" "calls s tid = Some c"
      "pc c = SetSuccess l r"
      "storage_set_success B (storage s) (clock s) (idempotency_key c) r ttl = (None, st)"
      "s' = goto tid c (Release l (Inr r)) (s\<lparr>storage := st\<rparr>)"
  | (Release) tid c l outcome where "ev = Step tid" "calls s tid = Some c"
      "pc c = Release l outcome"
      "s' = goto tid c (Pop outcome) (s\<lparr>locks := (locks s)(l := False)\<rparr>)"
  | (Pop) tid c outcome where "ev = Step tid" "calls s tid = Some c" "pc c = Pop outcome"
      "s' = goto tid c (Done outcome) (s\<lparr>in_flight := (in_flight s)(idempotency_key c := None)\<rparr>)"
  | (LoopTest) "ev = Janitor" "cleanup_thread s = LoopTest"
      "s' = s\<lparr>cleanup_thread := (if shutdown_event s then Exited else ReadTime)\<rparr>"
  | (ReadTime) "ev = Janitor" "cleanup_thread s = ReadTime"
      "s' = s\<lparr>cleanup_thread := Sweep (clock s)\<rparr>"
  | (Sweep_ok) now st where "ev = Janitor" "cleanup_thread s = Sweep now"
      "storage_cleanup_expired B (storage s) now ttl = (None, st)"
      "s' = s\<lparr>storage := st, cleanup_thread := Wait\<rparr>"
  | (Sweep_raise) now e st where "ev = Janitor" "cleanup_thread s = Sweep now"
      "storage_cleanup_expired B (storage s) now ttl = (Some e, st)"
      "s' = s\<lparr>storage := st, logged := logged s @ [Warning e], cleanup_thread := Wait\<rparr>"
  | (Wait) "ev = Janitor" "cleanup_thread s = Wait"
      "s' = s\<lparr>cleanup_thread := LoopTest\<rparr>"
  | (Tick) d where "ev = Tick d" "0 \<le> d" "s' = s\<lparr>clock := clock s + d\<rparr>"
  | (Shutdown) "ev = Shutdown" "s' = shutdown s"
  | (GetMetrics) "ev = GetMetrics" "s' = snd (get_metrics s)"
proof (cases ev)
  case (Call tid k a)
  then show ?thesis using assms that(1) [of tid k a]
    by (auto simp: step_def split: if_splits)
next
  case (Step tid)
  then obtain c where c: "calls s tid = Some c" and ps: "process_step B ttl tid c s = Some s'"
    using assms by (auto simp: step_def split: option.splits)
  show ?thesis
  proof (cases "pc c")
    case Start
    then show ?thesis using Step c ps that(2) by (simp add: process_step_def)
  next
    case (FastGet ct)
    then show ?thesis using Step c ps that(3,4,5) [of tid c ct]
      by (auto simp: process_step_def split: sum.splits option.splits)
  next
    case (FastHit r)
    then show ?thesis using Step c ps that(6) by (simp add: process_step_def)
  next
    case (Coord ct)
    obtain l s1 where co: "coordinate (idempotency_key c) s = (l, s1)"
      by (cases "coordinate (idempotency_key c) s")
    have "calls s1 = calls s" "clock s1 = clock s" "storage s1 = storage s" "world s1 = world s"
      "invoked s1 = invoked s" "cleanup_thread s1 = cleanup_thread s"
      "shutdown_event s1 = shutdown_event s" "logged s1 = logged s" "metrics s1 = metrics s"
      "n_dicts s1 = n_dicts s"
      using co
      by (auto simp: coordinate_def Let_def record_metric_def split: option.splits if_splits)
    then show ?thesis using Coord Step c ps co that(7) [of tid c ct l s1]
      by (simp add: process_step_def)
  next
    case (Acquire ct l)
    then show ?thesis using Step c ps that(8) [of tid c ct l]
      by (auto simp: process_step_def split: if_splits)
  next
    case (DoubleCheck ct l)
    then show ?thesis using Step c ps that(9,10,11) [of tid c ct l]
      by (auto simp: process_step_def split: sum.splits option.splits)
  next
    case (Miss l)
    then show ?thesis using Step c ps that(12) by (simp add: process_step_def)
  next
    case (Running l)
    then show ?thesis using Step c ps that(13,14) [of tid c l]
      by (auto simp: process_step_def split: sum.splits prod.splits)
  next
    case (SetSuccess l r)
    then show ?thesis using Step c ps that(15,16) [of tid c l r]
      by (auto simp: process_step_def split: option.splits prod.splits)
  next
    case (Release l outcome)
    then show ?thesis using Step c ps that(17) by (simp add: process_step_def)
  next
    case (Pop outcome)
    then show ?thesis using Step c ps that(18) by (simp add: process_step_def)
  next
    case (Done outcome)
    then show ?thesis using ps by (simp add: process_step_def)
  qed
next
  case Janitor
  then have j: "run_cleanup_loop_step B ttl s = Some s'"
    using assms by (simp add: step_def)
  show ?thesis
  proof (cases "cleanup_thread s")
    case LoopTest
    then show ?thesis using Janitor j that(19) by (simp add: run_cleanup_loop_step_def)
  next
    case ReadTime
    then show ?thesis using Janitor j that(20) by (simp add: run_cleanup_loop_step_def)
  next
    case (Sweep now)
    then show ?thesis using Janitor j that(21,22) [of now]
      by (auto simp: run_cleanup_loop_step_def split: option.splits prod.splits)
  next
    case Wait
    then show ?thesis using Janitor j that(23) by (simp add: run_cleanup_loop_step_def)
  next
    case Exited
    then show ?thesis using j by (simp add: run_cleanup_loop_step_def)
  qed
next
  case (Tick d)
  then show ?thesis using assms that(24) [of d] by (auto simp: step_def split: if_splits)
next
  case Shutdown
  then show ?thesis using assms that(25) by (simp add: step_def)
next
  case GetMetrics
  then show ?thesis using assms that(26) by (simp add: step_def)
qed


section \<open>The per-key locks\<close>

lemma lock_inv_bound: "lock_inv s \<Longrightarrow> key_locks s k = Some l \<Longrightarrow> l < n_locks s"
  by (simp add: lock_inv_def)

lemma lock_inv_inj: "lock_inv s \<Longrightarrow> key_locks s k = Some l \<Longrightarrow> key_locks s k' = Some l \<Longrightarrow> k = k'"
  unfolding lock_inv_def by blast

lemma lock_inv_ref:
  "lock_inv s \<Longrightarrow> calls s tid = Some c \<Longrightarrow> lock_of (pc c) = Some l \<Longrightarrow>
   key_locks s (idempotency_key c) = Some l"
  unfolding lock_inv_def by blast

lemma lock_inv_excl:
  "lock_inv s \<Longrightarrow> calls s tid = Some c \<Longrightarrow> calls s tid' = Some c' \<Longrightarrow>
   holds_lock (pc c) = Some l \<Longrightarrow> holds_lock (pc c') = Some l \<Longrightarrow> tid = tid'"
  unfolding lock_inv_def by blast

lemma lock_inv_held:
  "lock_inv s \<Longrightarrow> locks s l = (\<exists>tid c. calls s tid = Some c \<and> holds_lock (pc c) = Some l)"
  unfolding lock_inv_def by blast

lemma coordinate_effect:
  assumes "coordinate k s = (l, s1)"
  shows "calls s1 = calls s \<and> key_locks s1 k = Some l
         \<and> (key_locks s k = Some l \<and> key_locks s1 = key_locks s \<and> locks s1 = locks s
              \<and> n_locks s1 = n_locks s
            \<or> key_locks s k = None \<and> l = n_locks s \<and> key_locks s1 = (key_locks s)(k \<mapsto> l)
              \<and> locks s1 = (locks s)(l := False) \<and> n_locks s1 = Suc l)"
  using assms
  by (auto simp: coordinate_def record_metric_def Let_def split: option.splits if_splits)

lemma lock_inv_step_bound:
  assumes "step B ttl ev s = Some s'" "lock_inv s"
  shows "key_locks s' k = Some l \<Longrightarrow> l < n_locks s'"
  using assms(1)
proof (cases rule: step_cases)
  case (Coord tid c ct l0 s1)
  assume "key_locks s' k = Some l"
  then show ?thesis
    using coordinate_effect [OF Coord(4)] Coord(5) lock_inv_bound [OF assms(2), of k l]
          lock_inv_bound [OF assms(2), of "idempotency_key c" l0]
    by (auto split: if_splits)
qed (use assms(2) in \<open>auto dest: lock_inv_bound\<close>)

lemma lock_inv_step_inj:
  assumes "step B ttl ev s = Some s'" "lock_inv s"
  shows "key_locks s' k = Some l \<Longrightarrow> key_locks s' k' = Some l \<Longrightarrow> k = k'"
  using assms(1)
proof (cases rule: step_cases)
  case (Coord tid c ct l0 s1)
  assume "key_locks s' k = Some l" "key_locks s' k' = Some l"
  then show ?thesis
    using coordinate_effect [OF Coord(4)] Coord(5) lock_inv_bound [OF assms(2), of k l]
          lock_inv_bound [OF assms(2), of k' l] lock_inv_inj [OF assms(2), of k l k']
    by (auto split: if_splits)
qed (use assms(2) in \<open>auto dest: lock_inv_inj\<close>)

lemma lock_inv_step_ref:
  assumes "step B ttl ev s = Some s'" "lock_inv s"
  shows "calls s' t = Some c' \<Longrightarrow> lock_of (pc c') = Some l \<Longrightarrow>
         key_locks s' (idempotency_key c') = Some l"
  using assms(1)
proof (cases rule: step_cases)
  case (Coord tid c ct l0 s1)
  assume a: "calls s' t = Some c'" "lock_of (pc c') = Some l"
  show ?thesis
  proof (cases "t = tid")
    case True
    then show ?thesis
      using a coordinate_effect [OF Coord(4)] Coord(5) by (auto simp: goto_calls)
  next
    case False
    then have "calls s t = Some c'"
      using a coordinate_effect [OF Coord(4)] Coord(5) by (auto simp: goto_calls)
    then have "key_locks s (idempotency_key c') = Some l"
      using a(2) lock_inv_ref [OF assms(2)] by blast
    then show ?thesis
      using coordinate_effect [OF Coord(4)] Coord(5) by auto
  qed
qed (use assms(2) in \<open>auto simp: goto_calls split: if_splits dest: lock_inv_ref\<close>)

lemma lock_inv_step_excl:
  assumes "step B ttl ev s = Some s'" "lock_inv s"
  shows "calls s' t = Some c1 \<Longrightarrow> calls s' t' = Some c2 \<Longrightarrow>
         holds_lock (pc c1) = Some l \<Longrightarrow> holds_lock (pc c2) = Some l \<Longrightarrow> t = t'"
  using assms(1)
proof (cases rule: step_cases)
  case (Coord tid c ct l0 s1)
  assume "calls s' t = Some c1" "calls s' t' = Some c2"
         "holds_lock (pc c1) = Some l" "holds_lock (pc c2) = Some l"
  then show ?thesis
    using coordinate_effect [OF Coord(4)] Coord(5) lock_inv_excl [OF assms(2), of t c1 t' c2 l]
    by (auto simp: goto_calls split: if_splits)
next
  case (Acquire tid c ct l0)
  assume a: "calls s' t = Some c1" "calls s' t' = Some c2"
         "holds_lock (pc c1) = Some l" "holds_lock (pc c2) = Some l"
  have free: "\<And>u cu. calls s u = Some cu \<Longrightarrow> holds_lock (pc cu) \<noteq> Some l0"
    using Acquire(4) lock_inv_held [OF assms(2), of l0] by blast
  show ?thesis
    using a Acquire(2,3,5) free lock_inv_excl [OF assms(2), of t c1 t' c2 l]
    by (auto simp: goto_calls split: if_splits)
qed (use assms(2) in \<open>auto simp: goto_calls split: if_splits dest: lock_inv_excl\<close>)

lemma lock_inv_locked_bound:
  assumes "lock_inv s" "locks s l"
  shows "l < n_locks s"
proof -
  obtain t c where tc: "calls s t = Some c" "holds_lock (pc c) = Some l"
    using assms lock_inv_held by blast
  then have "lock_of (pc c) = Some l"
    by (cases "pc c") auto
  then show ?thesis
    using lock_inv_ref [OF assms(1) tc(1)] lock_inv_bound [OF assms(1)] by blast
qed

lemma held_after_move:
  assumes "lock_inv s" "calls s tid = Some c" "calls s1 = calls s"
  shows "(\<exists>t c'. calls (goto tid c p s1) t = Some c' \<and> holds_lock (pc c') = Some l) =
         (if holds_lock p = Some l then True
          else if holds_lock (pc c) = Some l then False else locks s l)"
proof -
  let ?others = "\<exists>t c'. t \<noteq> tid \<and> calls s t = Some c' \<and> holds_lock (pc c') = Some l"
  have pt: "\<And>t c'. (calls (goto tid c p s1) t = Some c' \<and> holds_lock (pc c') = Some l) =
              ((t = tid \<and> c' = c\<lparr>pc := p\<rparr> \<and> holds_lock p = Some l)
               \<or> (t \<noteq> tid \<and> calls s t = Some c' \<and> holds_lock (pc c') = Some l))"
    using assms(3) by (auto simp: goto_calls)
  have new: "(\<exists>t c'. calls (goto tid c p s1) t = Some c' \<and> holds_lock (pc c') = Some l) =
             (holds_lock p = Some l \<or> ?others)"
    unfolding pt by blast
  have "(\<exists>t c'. calls s t = Some c' \<and> holds_lock (pc c') = Some l) =
        (holds_lock (pc c) = Some l \<or> ?others)"
    using assms(2) by (metis option.inject)
  then have old: "locks s l = (holds_lock (pc c) = Some l \<or> ?others)"
    using lock_inv_held [OF assms(1), of l] by simp
  have excl: "holds_lock (pc c) = Some l \<Longrightarrow> \<not> ?others"
    using lock_inv_excl [OF assms(1) assms(2)] by blast
  show ?thesis
    unfolding new using old excl by auto
qed

lemma holder_locked:
  "lock_inv s \<Longrightarrow> calls s t = Some c \<Longrightarrow> holds_lock (pc c) = Some l \<Longrightarrow> locks s l"
  using lock_inv_held by blast

lemma held_move_same:
  assumes "lock_inv s" "calls s tid = Some c" "calls s1 = calls s"
    "holds_lock p = holds_lock (pc c)"
  shows "(\<exists>t c'. calls (goto tid c p s1) t = Some c' \<and> holds_lock (pc c') = Some l) = locks s l"
proof (cases "holds_lock (pc c) = Some l")
  case True
  then show ?thesis
    using held_after_move [OF assms(1,2,3), of p l] assms(4) holder_locked [OF assms(1,2)]
    by simp
next
  case False
  then show ?thesis
    using held_after_move [OF assms(1,2,3), of p l] assms(4) by simp
qed

lemma lock_inv_step_held:
  assumes "step B ttl ev s = Some s'" "lock_inv s"
  shows "locks s' l = (\<exists>t c. calls s' t = Some c \<and> holds_lock (pc c) = Some l)"
  using assms(1)
proof (cases rule: step_cases)
  case (Call tid k a)
  have "\<And>t c. (calls s' t = Some c \<and> holds_lock (pc c) = Some l) =
                (calls s t = Some c \<and> holds_lock (pc c) = Some l)"
    using Call(2,3) by auto
  then show ?thesis
    using lock_inv_held [OF assms(2), of l] Call(3) by simp
next
  case (Coord tid c ct l0 s1)
  have "locks s1 l = locks s l"
    using coordinate_effect [OF Coord(4)] lock_inv_locked_bound [OF assms(2), of l]
    by (auto split: if_splits)
  then show ?thesis
    using Coord(3,5) coordinate_effect [OF Coord(4)]
          held_move_same [OF assms(2) Coord(2), of s1 "Acquire ct l0" l]
    by simp
next
  case (Acquire tid c ct l0)
  then show ?thesis
    using held_after_move [OF assms(2) Acquire(2), of "s\<lparr>locks := (locks s)(l0 := True)\<rparr>"
            "DoubleCheck ct l0" l]
    by simp
next
  case (Release tid c l0 outcome)
  then show ?thesis
    using held_after_move [OF assms(2) Release(2), of "s\<lparr>locks := (locks s)(l0 := False)\<rparr>"
            "Pop outcome" l]
    by simp
qed (use assms(2) lock_inv_held [OF assms(2), of l] in \<open>simp_all add: held_move_same\<close>)

lemma lock_inv_step:
  assumes "step B ttl ev s = Some s'" "lock_inv s"
  shows "lock_inv s'"
  unfolding lock_inv_def
  using lock_inv_step_bound [OF assms] lock_inv_step_inj [OF assms] lock_inv_step_ref [OF assms]
        lock_inv_step_excl [OF assms] lock_inv_step_held [OF assms]
  by blast

lemma lock_inv_init: "lock_inv (IdempotentProcessor_init st w t0)"
  by (simp add: lock_inv_def IdempotentProcessor_init_def)

lemma lock_inv_run:
  "lock_inv s \<Longrightarrow> run B ttl evs s = Some s' \<Longrightarrow> lock_inv s'"
  using run_invariant [of lock_inv B ttl s evs s'] lock_inv_step by blast


section \<open>Time\<close>

lemma step_clock_mono: "step B ttl ev s = Some s' \<Longrightarrow> clock s \<le> clock s'"
  by (cases rule: step_cases) auto

lemma run_clock_mono: "run B ttl evs s = Some s' \<Longrightarrow> clock s \<le> clock s'"
proof (induction evs arbitrary: s)
  case Nil
  then show ?case by simp
next
  case (Cons ev evs)
  then obtain s1 where s1: "step B ttl ev s = Some s1" "run B ttl evs s1 = Some s'"
    by (auto split: option.splits)
  then show ?case
    using step_clock_mono [OF s1(1)] Cons.IH [OF s1(2)] by simp
qed

lemma time_inv_call:
  "time_inv s \<Longrightarrow> calls s t = Some c \<Longrightarrow> time_of (pc c) = Some ct \<Longrightarrow> ct \<le> clock s"
  unfolding time_inv_def by blast

lemma time_inv_sweep: "time_inv s \<Longrightarrow> cleanup_thread s = Sweep now \<Longrightarrow> now \<le> clock s"
  unfolding time_inv_def by blast

lemma time_inv_step_call:
  assumes "step B ttl ev s = Some s'" "time_inv s"
  shows "calls s' t = Some c' \<Longrightarrow> time_of (pc c') = Some ct \<Longrightarrow> ct \<le> clock s'"
  using assms(1)
proof (cases rule: step_cases)
  case (Tick d)
  assume "calls s' t = Some c'" "time_of (pc c') = Some ct"
  then show ?thesis
    using Tick time_inv_call [OF assms(2), of t c' ct] by auto
qed (use assms(2) in \<open>auto simp: goto_calls split: if_splits dest: time_inv_call\<close>)

lemma time_inv_step_sweep:
  assumes "step B ttl ev s = Some s'" "time_inv s"
  shows "cleanup_thread s' = Sweep now \<Longrightarrow> now \<le> clock s'"
  using assms(1)
proof (cases rule: step_cases)
  case (Tick d)
  assume "cleanup_thread s' = Sweep now"
  then show ?thesis
    using Tick time_inv_sweep [OF assms(2), of now] by auto
qed (use assms(2) in \<open>auto split: if_splits dest: time_inv_sweep\<close>)

lemma time_inv_step:
  assumes "step B ttl ev s = Some s'" "time_inv s"
  shows "time_inv s'"
  unfolding time_inv_def
  using time_inv_step_call [OF assms] time_inv_step_sweep [OF assms] by blast

lemma time_inv_init: "time_inv (IdempotentProcessor_init st w t0)"
  by (simp add: time_inv_def IdempotentProcessor_init_def)

lemma time_inv_run: "time_inv s \<Longrightarrow> run B ttl evs s = Some s' \<Longrightarrow> time_inv s'"
  using run_invariant [of time_inv B ttl s evs s'] time_inv_step by blast


section \<open>Shutdown, metrics and the cleanup loop\<close>

lemma step_shutdown_event:
  "step B ttl ev s = Some s' \<Longrightarrow> shutdown_event s \<Longrightarrow> shutdown_event s'"
  by (cases rule: step_cases) (auto simp: shutdown_def)

lemma run_shutdown_event:
  "shutdown_event s \<Longrightarrow> run B ttl evs s = Some s' \<Longrightarrow> shutdown_event s'"
  using run_invariant [of shutdown_event B ttl s evs s'] step_shutdown_event by blast

lemmas eval_defs = step_def process_step_def goto_def coordinate_def record_metric_def
  cached_result_def InMemoryIdempotentStorage_def get_def set_success_def
  IdempotentProcessor_init_def run_cleanup_loop_step_def shutdown_def get_metrics_def
  cleanup_expired_def counting_action_def flaky_action_def test_processor_def

text \<open>
  C8. A call of \<open>shutdown\<close> on a processor that is shut down changes nothing: two calls
  in a row are one call, and after any schedule of other events the event is still set
  and a further call is again a no-op.
\<close>

theorem shutdown_idempotent:
  "shutdown (shutdown s) = shutdown s
   \<and> shutdown_event (shutdown s)
   \<and> step B ttl Shutdown (shutdown s) = Some (shutdown s)
   \<and> (run B ttl evs (shutdown s) = Some s' \<longrightarrow> shutdown_event s' \<and> shutdown s' = s')"
proof -
  have "run B ttl evs (shutdown s) = Some s' \<Longrightarrow> shutdown_event s'"
    using run_shutdown_event [of "shutdown s" B ttl evs s'] by simp
  then show ?thesis
    by (auto simp: step_def shutdown_def)
qed

theorem shutdown_idempotent_witness:
  "run InMemoryIdempotentStorage 10 [Janitor, Tick 1] (shutdown test_processor) =
     Some (the (run InMemoryIdempotentStorage 10 [Janitor, Tick 1] (shutdown test_processor)))
   \<and> shutdown (the (run InMemoryIdempotentStorage 10 [Janitor, Tick 1] (shutdown test_processor))) =
       the (run InMemoryIdempotentStorage 10 [Janitor, Tick 1] (shutdown test_processor))"
proof -
  let ?r = "run InMemoryIdempotentStorage 10 [Janitor, Tick 1] (shutdown test_processor)"
  have r: "?r = Some (the ?r)"
    by (simp add: eval_defs)
  from shutdown_idempotent [of test_processor InMemoryIdempotentStorage 10 "[Janitor, Tick 1]"
         "the ?r"] r
  have "shutdown (the ?r) = the ?r"
    by blast
  with r show ?thesis
    by blast
qed

lemma step_metric_mono:
  assumes "step B ttl ev s = Some s'"
  shows "metric s name \<le> metric s' name \<and> metrics s' = metrics s"
  using assms
proof (cases rule: step_cases)
  case (Coord tid c ct l s1)
  then show ?thesis
    by (auto simp: metric_def coordinate_def Let_def record_metric_def
             split: option.splits if_splits)
qed (auto simp: metric_def record_metric_def)

lemma run_metric_mono:
  "run B ttl evs s = Some s' \<Longrightarrow> metric s name \<le> metric s' name \<and> metrics s' = metrics s"
proof (induction evs arbitrary: s)
  case Nil
  then show ?case by simp
next
  case (Cons ev evs)
  then obtain s1 where s1: "step B ttl ev s = Some s1" "run B ttl evs s1 = Some s'"
    by (auto split: option.splits)
  then show ?case
    using step_metric_mono [OF s1(1), of name] Cons.IH [OF s1(2)] by simp
qed

lemma step_dicts_frame:
  assumes "step B ttl ev s = Some s'" "metrics s < n_dicts s" "ref < n_dicts s" "ref \<noteq> metrics s"
  shows "dicts s' ref = dicts s ref \<and> metrics s' < n_dicts s' \<and> ref < n_dicts s'
         \<and> ref \<noteq> metrics s'"
  using assms(1)
proof (cases rule: step_cases)
  case (Coord tid c ct l s1)
  then show ?thesis
    using assms(2-)
    by (auto simp: coordinate_def Let_def record_metric_def split: option.splits if_splits)
qed (use assms(2-) in \<open>auto simp: record_metric_def\<close>)

lemma run_dicts_frame:
  "run B ttl evs s = Some s' \<Longrightarrow> metrics s < n_dicts s \<Longrightarrow> ref < n_dicts s \<Longrightarrow>
   ref \<noteq> metrics s \<Longrightarrow> dicts s' ref = dicts s ref \<and> ref \<noteq> metrics s'"
proof (induction evs arbitrary: s)
  case Nil
  then show ?case by simp
next
  case (Cons ev evs)
  then obtain s1 where s1: "step B ttl ev s = Some s1" "run B ttl evs s1 = Some s'"
    by (auto split: option.splits)
  then show ?case
    using step_dicts_frame [OF s1(1) Cons.prems(2,3,4)] Cons.IH [OF s1(2)] by simp
qed

lemma step_metrics_allocated:
  "step B ttl ev s = Some s' \<Longrightarrow> metrics s < n_dicts s \<Longrightarrow> metrics s' < n_dicts s'"
  by (cases rule: step_cases) auto

lemma run_metrics_allocated:
  "metrics s < n_dicts s \<Longrightarrow> run B ttl evs s = Some s' \<Longrightarrow> metrics s' < n_dicts s'"
  using run_invariant [of "\<lambda>s. metrics s < n_dicts s" B ttl s evs s'] step_metrics_allocated
  by blast

text \<open>
  C9. No event makes a counter smaller. In a processor reached from its construction,
  \<open>get_metrics\<close> returns a dictionary that is not the processor's table, holds the
  table's items of that moment, and is left as it is by every later event, the
  increments of \<open>_record_metric\<close> among them.
\<close>

theorem metrics_monotone_and_snapshot_independent:
  "(run B ttl evs s = Some s' \<longrightarrow> metric s name \<le> metric s' name)
   \<and> (run B ttl evs0 (IdempotentProcessor_init st w t0) = Some s
        \<and> run B ttl evs (snd (get_metrics s)) = Some s'
      \<longrightarrow> fst (get_metrics s) \<noteq> metrics s'
          \<and> dicts (snd (get_metrics s)) (fst (get_metrics s)) = dicts s (metrics s)
          \<and> dicts s' (fst (get_metrics s)) = dicts s (metrics s))"
proof -
  have a: "run B ttl evs s = Some s' \<Longrightarrow> metric s name \<le> metric s' name"
    using run_metric_mono by blast
  have b: "fst (get_metrics s) \<noteq> metrics s'
           \<and> dicts (snd (get_metrics s)) (fst (get_metrics s)) = dicts s (metrics s)
           \<and> dicts s' (fst (get_metrics s)) = dicts s (metrics s)"
    if r0: "run B ttl evs0 (IdempotentProcessor_init st w t0) = Some s"
      and r: "run B ttl evs (snd (get_metrics s)) = Some s'"
  proof -
    have "metrics (IdempotentProcessor_init st w t0 :: ('a, 'b, 'c) IdempotentProcessor)
            < n_dicts (IdempotentProcessor_init st w t0 :: ('a, 'b, 'c) IdempotentProcessor)"
      by (simp add: IdempotentProcessor_init_def)
    then have alloc: "metrics s < n_dicts s"
      using run_metrics_allocated r0 by blast
    then show ?thesis
      using run_dicts_frame [OF r, of "n_dicts s"] by simp
  qed
  show ?thesis
    using a b by blast
qed

theorem metrics_monotone_and_snapshot_independent_witness:
  "metric test_processor ''cache_miss'' = 0
   \<and> metric (the (run InMemoryIdempotentStorage 10
         [Call 1 ''k'' counting_action, Step 1, Step 1, Step 1, Step 1, Step 1, Step 1]
         (snd (get_metrics test_processor)))) ''cache_miss'' = 1
   \<and> dicts (the (run InMemoryIdempotentStorage 10
         [Call 1 ''k'' counting_action, Step 1, Step 1, Step 1, Step 1, Step 1, Step 1]
         (snd (get_metrics test_processor)))) (fst (get_metrics test_processor)) = Map.empty"
proof -
  let ?evs = "[Call 1 ''k'' counting_action, Step 1, Step 1, Step 1, Step 1, Step 1, Step 1]"
  let ?r = "run InMemoryIdempotentStorage 10 ?evs (snd (get_metrics test_processor))"
  have r0: "run InMemoryIdempotentStorage 10 [] (IdempotentProcessor_init [] 0 0) =
              Some test_processor"
    by (simp add: test_processor_def)
  have r: "?r = Some (the ?r)"
    by (simp add: eval_defs)
  have m: "metric (the ?r) ''cache_miss'' = 1"
    by (simp add: eval_defs metric_def)
  have d: "dicts test_processor (metrics test_processor) = Map.empty"
    "metric test_processor ''cache_miss'' = 0"
    by (simp_all add: test_processor_def IdempotentProcessor_init_def metric_def)
  note th = metrics_monotone_and_snapshot_independent
         [of InMemoryIdempotentStorage 10 ?evs test_processor "the ?r" "''cache_miss''" "[]" "[]" 0 0]
  have "dicts (the ?r) (fst (get_metrics test_processor)) =
          dicts test_processor (metrics test_processor)"
    using th [THEN conjunct2, THEN mp, OF conjI, OF r0 r] by (elim conjE) assumption
  with m d show ?thesis
    by simp
qed

text \<open>
  C7. When the backend's \<open>cleanup_expired\<close> raises in a sweep, the cleanup thread logs the
  exception as a warning and goes on to the wait; two steps later it is at the next
  iteration, unless the processor was shut down. No step of the cleanup thread changes
  a call of \<open>process\<close>, and the thread leaves the loop only at the loop test, with the
  shutdown event set.
\<close>

theorem cleanup_error_caught_in_loop:
  "(cleanup_thread s = Sweep now \<and> storage_cleanup_expired B (storage s) now ttl = (Some e, st)
      \<longrightarrow> step B ttl Janitor s =
            Some (s\<lparr>storage := st, logged := logged s @ [Warning e], cleanup_thread := Wait\<rparr>)
          \<and> run B ttl [Janitor, Janitor, Janitor] s =
            Some (s\<lparr>storage := st, logged := logged s @ [Warning e],
                    cleanup_thread := (if shutdown_event s then Exited else ReadTime)\<rparr>))
   \<and> (step B ttl Janitor s = Some s'
      \<longrightarrow> calls s' = calls s
          \<and> (cleanup_thread s' = Exited \<longrightarrow> cleanup_thread s = LoopTest \<and> shutdown_event s))"
proof -
  have b: "step B ttl Janitor s = Some s' \<Longrightarrow>
        calls s' = calls s
        \<and> (cleanup_thread s' = Exited \<longrightarrow> cleanup_thread s = LoopTest \<and> shutdown_event s)"
    by (cases rule: step_cases) (auto split: if_splits)
  have a: "step B ttl Janitor s =
            Some (s\<lparr>storage := st, logged := logged s @ [Warning e], cleanup_thread := Wait\<rparr>)
          \<and> run B ttl [Janitor, Janitor, Janitor] s =
            Some (s\<lparr>storage := st, logged := logged s @ [Warning e],
                    cleanup_thread := (if shutdown_event s then Exited else ReadTime)\<rparr>)"
    if "cleanup_thread s = Sweep now"
      and "storage_cleanup_expired B (storage s) now ttl = (Some e, st)"
    using that by (simp add: step_def run_cleanup_loop_step_def)
  show ?thesis
    using a b by blast
qed

theorem cleanup_error_caught_in_loop_witness:
  "map_option (\<lambda>s. (cleanup_thread s, logged s))
     (run (InMemoryIdempotentStorage
            \<lparr>storage_cleanup_expired := \<lambda>st now ttl. (Some (Exn ''OSError'' ''disk''), st)\<rparr>) 10
        [Janitor, Janitor, Janitor] test_processor) =
   Some (Wait, [Warning (Exn ''OSError'' ''disk'')])"
proof -
  let ?B = "InMemoryIdempotentStorage
              \<lparr>storage_cleanup_expired := \<lambda>st now ttl. (Some (Exn ''OSError'' ''disk''), st)\<rparr>
            :: (nat results, nat) IdempotentStorage"
  let ?s = "test_processor\<lparr>cleanup_thread := Sweep 0\<rparr>"
  have r: "run ?B 10 [Janitor, Janitor] test_processor = Some ?s"
    by (simp add: eval_defs)
  have h: "cleanup_thread ?s = Sweep 0
           \<and> storage_cleanup_expired ?B (storage ?s) 0 10 = (Some (Exn ''OSError'' ''disk''), [])"
    by (simp add: eval_defs)
  have "step ?B 10 Janitor ?s =
          Some (?s\<lparr>storage := [], logged := logged ?s @ [Warning (Exn ''OSError'' ''disk'')],
                  cleanup_thread := Wait\<rparr>)"
    using cleanup_error_caught_in_loop
            [of ?s 0 ?B 10 "Exn ''OSError'' ''disk''" "[]", THEN conjunct1, THEN mp, OF h]
    by (elim conjE) assumption
  then have "run ?B 10 ([Janitor, Janitor] @ [Janitor]) test_processor =
          Some (?s\<lparr>storage := [], logged := logged ?s @ [Warning (Exn ''OSError'' ''disk'')],
                  cleanup_thread := Wait\<rparr>)"
    unfolding run_append r by simp
  then show ?thesis
    by (simp add: test_processor_def IdempotentProcessor_init_def)
qed

lemma reachable_time_inv:
  "run B ttl evs (IdempotentProcessor_init st w t0) = Some s \<Longrightarrow> time_inv s"
  by (rule time_inv_run [OF time_inv_init])

lemma reachable_lock_inv:
  "run B ttl evs (IdempotentProcessor_init st w t0) = Some s \<Longrightarrow> lock_inv s"
  by (rule lock_inv_run [OF lock_inv_init])

lemma cached_result_Some:
  "cached_result ttl ct cached = Some r \<Longrightarrow>
   \<exists>ts. cached = Some (ts, r, True) \<and> ct - ts \<le> real_of_int ttl"
  by (auto simp: cached_result_def split: option.splits if_splits)

text \<open>
  C4 (amended). In a processor reached from its construction, when a call takes a result
  from the cache, on the fast path or at the double check, the entry it has just read is
  successful and within the TTL of \<open>current_time\<close>, the clock value the call read at its
  start (line 79), which is not later than the time of the check.
\<close>

theorem cached_return_fresh_at_call_time:
  assumes "run B ttl evs (IdempotentProcessor_init st w t0) = Some s"
    and "calls s tid = Some c"
    and "step B ttl (Step tid) s = Some s'"
    and "calls s' tid = Some c'"
    and "(pc c = FastGet ct \<and> pc c' = FastHit r)
         \<or> (pc c = DoubleCheck ct l \<and> pc c' = Release l (Inr r))"
  shows "\<exists>ts. storage_get B (storage s) (idempotency_key c) = Inr (Some (ts, r, True))
              \<and> ct - ts \<le> real_of_int ttl \<and> ct \<le> clock s"
proof -
  have ps: "process_step B ttl tid c s = Some s'"
    using assms(2,3) by (simp add: step_def)
  have "time_of (pc c) = Some ct"
    using assms(5) by auto
  then have le: "ct \<le> clock s"
    using time_inv_call [OF reachable_time_inv [OF assms(1)] assms(2)] by blast
  from assms(5) show ?thesis
  proof
    assume a: "pc c = FastGet ct \<and> pc c' = FastHit r"
    then have "\<exists>cached. storage_get B (storage s) (idempotency_key c) = Inr cached
                 \<and> cached_result ttl ct cached = Some r"
      using ps assms(4)
      by (auto simp: process_step_def goto_def split: sum.splits option.splits)
    then show ?thesis
      using le cached_result_Some by fastforce
  next
    assume a: "pc c = DoubleCheck ct l \<and> pc c' = Release l (Inr r)"
    then have "\<exists>cached. storage_get B (storage s) (idempotency_key c) = Inr cached
                 \<and> cached_result ttl ct cached = Some r"
      using ps assms(4)
      by (auto simp: process_step_def goto_def split: sum.splits option.splits)
    then show ?thesis
      using le cached_result_Some by fastforce
  qed
qed


theorem cached_return_fresh_at_call_time_witness:
  "\<exists>s. run InMemoryIdempotentStorage 1
          [Call 1 ''k'' counting_action, Call 2 ''k'' counting_action,
           Step 1, Step 2, Step 1, Step 2, Step 1, Step 2,
           Step 1, Step 1, Step 1, Step 1, Step 1, Step 1, Step 1, Tick 2, Step 2]
          test_processor = Some s
        \<and> (\<exists>ts. storage_get InMemoryIdempotentStorage (storage s) ''k'' = Inr (Some (ts, 1, True))
               \<and> 0 - ts \<le> real_of_int 1 \<and> 0 \<le> clock s)"
proof -
  let ?evs = "[Call 1 ''k'' counting_action, Call 2 ''k'' counting_action,
               Step 1, Step 2, Step 1, Step 2, Step 1, Step 2,
               Step 1, Step 1, Step 1, Step 1, Step 1, Step 1, Step 1, Tick 2, Step 2]"
  let ?c = "\<lparr>idempotency_key = ''k'', action_callable = counting_action, pc = DoubleCheck 0 0\<rparr>"
  have "\<exists>s. run InMemoryIdempotentStorage 1 ?evs test_processor = Some s
            \<and> calls s 2 = Some ?c
            \<and> step InMemoryIdempotentStorage 1 (Step 2) s = Some (goto 2 ?c (Release 0 (Inr 1)) s)"
    by (simp add: eval_defs)
  then obtain s where s: "run InMemoryIdempotentStorage 1 ?evs test_processor = Some s"
      "calls s 2 = Some ?c"
      "step InMemoryIdempotentStorage 1 (Step 2) s = Some (goto 2 ?c (Release 0 (Inr 1)) s)"
    by blast
  have c': "calls (goto 2 ?c (Release 0 (Inr 1)) s) 2 = Some (?c\<lparr>pc := Release 0 (Inr 1)\<rparr>)"
    by (simp add: goto_calls)
  have "\<exists>ts. storage_get InMemoryIdempotentStorage (storage s) (idempotency_key ?c) =
               Inr (Some (ts, 1, True))
             \<and> 0 - ts \<le> real_of_int 1 \<and> 0 \<le> clock s"
    by (rule cached_return_fresh_at_call_time
               [where ct = 0 and l = 0 and r = 1, OF s(1) [unfolded test_processor_def] s(2) s(3) c'])
       simp
  then show ?thesis
    using s(1) by auto
qed

text \<open>
  C4 as stated fails: with a TTL of 1 second, thread 1 stores its result at time 0 while
  thread 2, which read the clock at time 0 too, waits for the lock. Thread 2 gets the
  lock at time 2 and takes the result from the entry, which is then 2 seconds old.
\<close>

theorem cached_return_stale_at_check_time:
  "map_option (\<lambda>s. (map_option pc (calls s 2), get (storage s) ''k'', clock s))
     (run InMemoryIdempotentStorage 1
        [Call 1 ''k'' counting_action, Call 2 ''k'' counting_action,
         Step 1, Step 2, Step 1, Step 2, Step 1, Step 2,
         Step 1, Step 1, Step 1, Step 1, Step 1, Step 1, Step 1, Tick 2, Step 2]
        test_processor) =
     Some (Some (DoubleCheck 0 0), Some (0, 1, True), 2)
   \<and> map_option (\<lambda>s. map_option pc (calls s 2))
       (run InMemoryIdempotentStorage 1
          [Call 1 ''k'' counting_action, Call 2 ''k'' counting_action,
           Step 1, Step 2, Step 1, Step 2, Step 1, Step 2,
           Step 1, Step 1, Step 1, Step 1, Step 1, Step 1, Step 1, Tick 2, Step 2, Step 2]
          test_processor) =
       Some (Some (Release 0 (Inr 1)))
   \<and> \<not> ((2 :: real) - 0 \<le> real_of_int 1)"
  by (simp add: eval_defs)

section \<open>The in-memory store under the processor\<close>

lemma store_inv_distinct: "store_inv s \<Longrightarrow> distinct (map fst (storage s))"
  by (simp add: store_inv_def)


lemma cleanup_expired_distinct:
  "distinct (map fst results) \<Longrightarrow>
   cleanup_expired results now ttl =
     (None, filter (\<lambda>(k, (ts, r, ok)). now - ts \<le> real_of_int ttl) results)"
  by (rule cleanup_expired_filter)

lemma get_filter:
  "distinct (map fst results) \<Longrightarrow>
   get (filter (\<lambda>(k, (ts, r, ok)). now - ts \<le> real_of_int ttl) results) k =
     (case get results k of
        None \<Rightarrow> None
      | Some (ts, r, ok) \<Rightarrow> if now - ts \<le> real_of_int ttl then Some (ts, r, ok) else None)"
  unfolding get_def
  by (induction results) (auto simp: image_iff split: option.splits)


lemma set_alist_update: "set (AList.update k v al) \<subseteq> insert (k, v) (set al)"
  by (induction al) auto

lemma store_inv_step:
  assumes "step InMemoryIdempotentStorage ttl ev s = Some s'" "store_inv s"
  shows "store_inv s'"
  using assms(1)
proof (cases rule: step_cases)
  case (SetSuccess_ok tid c l r st)
  then have st: "st = set_success (storage s) (clock s) (idempotency_key c) r ttl"
    by (simp add: InMemoryIdempotentStorage_def)
  have "distinct (map fst st)"
    using assms(2) by (simp add: st set_success_def store_inv_def distinct_update)
  moreover have "set st \<subseteq> insert (idempotency_key c, (clock s, r, True)) (set (storage s))"
    unfolding st set_success_def by (rule set_alist_update)
  then have "\<And>k ts r' ok. (k, (ts, r', ok)) \<in> set st \<Longrightarrow> ok \<and> ts \<le> clock s"
    using assms(2) unfolding store_inv_def by fastforce
  ultimately show ?thesis
    using SetSuccess_ok(5) unfolding store_inv_def by simp blast
next
  case (SetSuccess_raise tid c l r e st)
  then show ?thesis
    by (simp add: InMemoryIdempotentStorage_def)
next
  case (Sweep_ok now st)
  then have "st = filter (\<lambda>(k, (ts, r, ok)). now - ts \<le> real_of_int ttl) (storage s)"
    using cleanup_expired_distinct [OF store_inv_distinct [OF assms(2)], of now ttl]
    by (simp add: InMemoryIdempotentStorage_def)
  then show ?thesis
    using assms(2) Sweep_ok(4) by (auto simp: store_inv_def distinct_map_filter)
next
  case (Sweep_raise now e st)
  then show ?thesis
    using cleanup_expired_distinct [OF store_inv_distinct [OF assms(2)], of now ttl]
    by (simp add: InMemoryIdempotentStorage_def)
next
  case (Tick d)
  then show ?thesis
    using assms(2) by (fastforce simp: store_inv_def)
qed (use assms(2) in \<open>auto simp: store_inv_def\<close>)

lemma store_inv_init: "store_inv (IdempotentProcessor_init [] w t0)"
  by (simp add: store_inv_def IdempotentProcessor_init_def)

lemma store_inv_run:
  "store_inv s \<Longrightarrow> run InMemoryIdempotentStorage ttl evs s = Some s' \<Longrightarrow> store_inv s'"
  using run_invariant [of store_inv InMemoryIdempotentStorage ttl s evs s'] store_inv_step
  by blast

section \<open>Calls of process that run without interruption\<close>

lemma run_call_run:
  "run_call B ttl n t s = Some (outcome, s') \<Longrightarrow>
   \<exists>m. run B ttl (replicate m (Step t)) s = Some s'"
proof (induction n arbitrary: s)
  case 0
  then show ?case by simp
next
  case (Suc n)
  then obtain c where c: "calls s t = Some c"
    by (auto split: option.splits)
  show ?case
  proof (cases "\<exists>out. pc c = Done out")
    case True
    then have "s' = s"
      using Suc.prems c by auto
    then have "run B ttl (replicate 0 (Step t)) s = Some s'"
      by simp
    then show ?thesis by blast
  next
    case False
    then obtain s1 where s1: "process_step B ttl t c s = Some s1"
        "run_call B ttl n t s1 = Some (outcome, s')"
      using Suc.prems c by (cases "pc c") (auto split: option.splits)
    obtain m where "run B ttl (replicate m (Step t)) s1 = Some s'"
      using Suc.IH [OF s1(2)] by blast
    then have "run B ttl (replicate (Suc m) (Step t)) s = Some s'"
      using s1(1) c by (simp add: step_def)
    then show ?thesis by blast
  qed
qed

lemma process_run:
  assumes "process B ttl t k a s = Some (outcome, s')"
  shows "\<exists>m. run B ttl (Call t k a # replicate m (Step t)) s = Some s'"
proof -
  obtain s1 where s1: "step B ttl (Call t k a) s = Some s1"
      "run_call B ttl 11 t s1 = Some (outcome, s')"
    using assms by (auto simp: process_def split: option.splits)
  obtain m where "run B ttl (replicate m (Step t)) s1 = Some s'"
    using run_call_run [OF s1(2)] by blast
  then have "run B ttl (Call t k a # replicate m (Step t)) s = Some s'"
    using s1(1) by simp
  then show ?thesis by blast
qed



lemma process_miss:
  assumes "calls s t = None" "cached_result ttl (clock s) (get (storage s) k) = None"
    "\<And>l. key_locks s k = Some l \<Longrightarrow> \<not> locks s l"
  shows "\<exists>s'. process InMemoryIdempotentStorage ttl t k a s = Some (fst (a (world s)), s')
           \<and> invoked s' = invoked s @ [(t, k)]
           \<and> world s' = snd (a (world s))
           \<and> clock s' = clock s
           \<and> cleanup_thread s' = cleanup_thread s
           \<and> storage s' =
               (case fst (a (world s)) of
                  Inl e \<Rightarrow> storage s
                | Inr r \<Rightarrow> set_success (storage s) (clock s) k r ttl)
           \<and> calls s' = (calls s)(t \<mapsto>
                 \<lparr>idempotency_key = k, action_callable = a, pc = Done (fst (a (world s)))\<rparr>)"
proof -
  obtain out w where aw: "a (world s) = (out, w)"
    by (cases "a (world s)")
  show ?thesis
  proof (cases "key_locks s k")
    case None
    show ?thesis
    proof (cases out)
      case (Inl e)
      then show ?thesis
        using assms(1,2) None aw
        by (simp add: process_def step_def process_step_def goto_def coordinate_def
              InMemoryIdempotentStorage_def eval_nat_numeral dom_def record_metric_def Let_def)
    next
      case (Inr r)
      then show ?thesis
        using assms(1,2) None aw
        by (simp add: process_def step_def process_step_def goto_def coordinate_def
              InMemoryIdempotentStorage_def eval_nat_numeral dom_def record_metric_def Let_def)
    qed
  next
    case (Some l)
    then have free: "\<not> locks s l"
      using assms(3) by blast
    show ?thesis
    proof (cases out)
      case (Inl e)
      then show ?thesis
        using assms(1,2) Some free aw
        by (simp add: process_def step_def process_step_def goto_def coordinate_def
              InMemoryIdempotentStorage_def eval_nat_numeral dom_def record_metric_def Let_def)
    next
      case (Inr r)
      then show ?thesis
        using assms(1,2) Some free aw
        by (simp add: process_def step_def process_step_def goto_def coordinate_def
              InMemoryIdempotentStorage_def eval_nat_numeral dom_def record_metric_def Let_def)
    qed
  qed
qed

lemma quiescent_lock_free:
  assumes "lock_inv s" "quiescent k s" "key_locks s k = Some l"
  shows "\<not> locks s l"
proof
  assume "locks s l"
  then obtain t c where tc: "calls s t = Some c" "holds_lock (pc c) = Some l"
    using lock_inv_held [OF assms(1)] by blast
  then have "lock_of (pc c) = Some l"
    by (cases "pc c") auto
  then have "key_locks s (idempotency_key c) = Some l"
    using lock_inv_ref [OF assms(1) tc(1)] by blast
  then have "idempotency_key c = k"
    using lock_inv_inj [OF assms(1)] assms(3) by blast
  then obtain outcome where "pc c = Done outcome"
    using assms(2) tc(1) unfolding quiescent_def by blast
  then show False
    using tc(2) by simp
qed

section \<open>The background between calls\<close>

lemma background_step_frame:
  assumes "step B ttl ev s = Some s'" "background ev"
  shows "calls s' = calls s \<and> invoked s' = invoked s \<and> world s' = world s"
  using assms by (cases rule: step_cases) auto

lemma background_run_frame:
  "run B ttl evs s = Some s' \<Longrightarrow> \<forall>ev \<in> set evs. background ev \<Longrightarrow>
   calls s' = calls s \<and> invoked s' = invoked s \<and> world s' = world s"
proof (induction evs arbitrary: s)
  case Nil
  then show ?case by simp
next
  case (Cons ev evs)
  then obtain s1 where s1: "step B ttl ev s = Some s1" "run B ttl evs s1 = Some s'"
    by (auto split: option.splits)
  then show ?case
    using background_step_frame [OF s1(1)] Cons.IH [OF s1(2)] Cons.prems(2) by simp
qed

lemma background_step_get:
  assumes "step InMemoryIdempotentStorage ttl ev s = Some s'" "background ev" "store_inv s"
  shows "get (storage s') k = get (storage s) k \<or> get (storage s') k = None"
  using assms(1)
proof (cases rule: step_cases)
  case (Sweep_ok now st)
  then have "st = filter (\<lambda>(k, (ts, r, ok)). now - ts \<le> real_of_int ttl) (storage s)"
    using cleanup_expired_distinct [OF store_inv_distinct [OF assms(3)], of now ttl]
    by (simp add: InMemoryIdempotentStorage_def)
  then show ?thesis
    using Sweep_ok(4) get_filter [OF store_inv_distinct [OF assms(3)], of now ttl k]
    by (auto split: option.splits if_splits)
next
  case (Sweep_raise now e st)
  then show ?thesis
    using cleanup_expired_distinct [OF store_inv_distinct [OF assms(3)], of now ttl]
    by (simp add: InMemoryIdempotentStorage_def)
qed (use assms(2) in auto)


lemma background_run_get:
  "run InMemoryIdempotentStorage ttl evs s = Some s' \<Longrightarrow> \<forall>ev \<in> set evs. background ev \<Longrightarrow>
   store_inv s \<Longrightarrow> get (storage s') k = get (storage s) k \<or> get (storage s') k = None"
proof (induction evs arbitrary: s)
  case Nil
  then show ?case by simp
next
  case (Cons ev evs)
  then obtain s1 where s1: "step InMemoryIdempotentStorage ttl ev s = Some s1"
      "run InMemoryIdempotentStorage ttl evs s1 = Some s'"
    by (auto split: option.splits)
  have "get (storage s1) k = get (storage s) k \<or> get (storage s1) k = None"
    using background_step_get [OF s1(1)] Cons.prems(2,3) by simp
  moreover have "get (storage s') k = get (storage s1) k \<or> get (storage s') k = None"
    using Cons.IH [OF s1(2)] Cons.prems(2) store_inv_step [OF s1(1) Cons.prems(3)] by simp
  ultimately show ?case by auto
qed


lemma cached_result_later:
  "cached_result ttl ct cached = None \<Longrightarrow> ct \<le> ct' \<Longrightarrow> cached_result ttl ct' cached = None"
  by (auto simp: cached_result_def split: option.splits if_splits)

lemma background_run_nofresh:
  assumes "run InMemoryIdempotentStorage ttl evs s = Some s'" "\<forall>ev \<in> set evs. background ev"
    "store_inv s" "cached_result ttl (clock s) (get (storage s) k) = None"
  shows "cached_result ttl (clock s') (get (storage s') k) = None"
proof -
  have "clock s \<le> clock s'"
    using run_clock_mono [OF assms(1)] .
  then have "cached_result ttl (clock s') (get (storage s) k) = None"
    using cached_result_later [OF assms(4)] by blast
  moreover have "cached_result ttl (clock s') None = None"
    by (simp add: cached_result_def)
  ultimately show ?thesis
    using background_run_get [OF assms(1,2,3), of k] by auto
qed

section \<open>Sequential calls\<close>

lemma reachable_store_inv:
  "run InMemoryIdempotentStorage ttl evs (IdempotentProcessor_init [] w t0) = Some s \<Longrightarrow>
   store_inv s"
  by (rule store_inv_run [OF store_inv_init])

lemma process_lock_inv:
  assumes "lock_inv s" "process B ttl t k a s = Some (outcome, s')"
  shows "lock_inv s'"
proof -
  obtain m where "run B ttl (Call t k a # replicate m (Step t)) s = Some s'"
    using process_run [OF assms(2)] by blast
  then show ?thesis
    by (rule lock_inv_run [OF assms(1)])
qed


lemma process_store_inv:
  assumes "store_inv s" "process InMemoryIdempotentStorage ttl t k a s = Some (outcome, s')"
  shows "store_inv s'"
proof -
  obtain m where "run InMemoryIdempotentStorage ttl (Call t k a # replicate m (Step t)) s = Some s'"
    using process_run [OF assms(2)] by blast
  then show ?thesis
    by (rule store_inv_run [OF assms(1)])
qed

lemma quiescent_after_call:
  "quiescent k s \<Longrightarrow> calls s' = (calls s)(t \<mapsto> c) \<Longrightarrow> pc c = Done outcome \<Longrightarrow> quiescent k s'"
  by (auto simp: quiescent_def)

text \<open>
  What a call does when its key has no call under way and no fresh entry: it invokes the
  action once, returns or raises what the action does, and stores a result only if there
  is one.
\<close>

lemma process_executes:
  assumes "lock_inv s" "quiescent k s" "calls s t = None"
    "cached_result ttl (clock s) (get (storage s) k) = None"
  shows "\<exists>s'. process InMemoryIdempotentStorage ttl t k a s = Some (fst (a (world s)), s')
           \<and> invoked s' = invoked s @ [(t, k)]
           \<and> world s' = snd (a (world s))
           \<and> clock s' = clock s
           \<and> cleanup_thread s' = cleanup_thread s
           \<and> storage s' =
               (case fst (a (world s)) of
                  Inl e \<Rightarrow> storage s
                | Inr r \<Rightarrow> set_success (storage s) (clock s) k r ttl)
           \<and> calls s' = (calls s)(t \<mapsto>
                 \<lparr>idempotency_key = k, action_callable = a, pc = Done (fst (a (world s)))\<rparr>)"
  by (rule process_miss [OF assms(3,4)]) (rule quiescent_lock_free [OF assms(1,2)])

text \<open>
  C2. On the in-memory store, for a key with no call under way and no fresh entry: a call
  whose action raises \<open>e\<close> raises \<open>e\<close> itself, has invoked the action once and leaves
  the store as it was; and after any moves of the clock and the cleanup thread, the next
  call with that key invokes its action again and returns or raises what that action
  does.
\<close>

theorem failure_reraised_and_not_cached:
  assumes "run InMemoryIdempotentStorage ttl evs0 (IdempotentProcessor_init [] w0 t0) = Some s0"
    and "quiescent k s0"
    and "cached_result ttl (clock s0) (get (storage s0) k) = None"
    and "calls s0 t1 = None" and "calls s0 t2 = None" and "t1 \<noteq> t2"
    and "fst (a1 (world s0)) = Inl e"
    and "\<forall>ev \<in> set evs1. background ev"
  shows "\<exists>s1. process InMemoryIdempotentStorage ttl t1 k a1 s0 = Some (Inl e, s1)
           \<and> storage s1 = storage s0
           \<and> invoked s1 = invoked s0 @ [(t1, k)]
           \<and> (\<forall>s1'. run InMemoryIdempotentStorage ttl evs1 s1 = Some s1' \<longrightarrow>
                 (\<exists>s2. process InMemoryIdempotentStorage ttl t2 k a2 s1' =
                         Some (fst (a2 (world s1')), s2)
                       \<and> invoked s2 = invoked s1 @ [(t2, k)]))"
proof -
  have li: "lock_inv s0"
    by (rule reachable_lock_inv [OF assms(1)])
  have si: "store_inv s0"
    by (rule reachable_store_inv [OF assms(1)])
  obtain s1 where s1: "process InMemoryIdempotentStorage ttl t1 k a1 s0 = Some (Inl e, s1)"
      "invoked s1 = invoked s0 @ [(t1, k)]" "clock s1 = clock s0" "storage s1 = storage s0"
      "calls s1 = (calls s0)(t1 \<mapsto>
         \<lparr>idempotency_key = k, action_callable = a1, pc = Done (Inl e)\<rparr>)"
    using process_executes [OF li assms(2,4,3), of a1] assms(7) by auto
  have li1: "lock_inv s1" and si1: "store_inv s1"
    by (rule process_lock_inv [OF li s1(1)], rule process_store_inv [OF si s1(1)])
  have q1: "quiescent k s1"
    using quiescent_after_call [OF assms(2) s1(5)] by simp
  have nf1: "cached_result ttl (clock s1) (get (storage s1) k) = None"
    using assms(3) s1(3,4) by simp
  have "\<exists>s2. process InMemoryIdempotentStorage ttl t2 k a2 s1' = Some (fst (a2 (world s1')), s2)
             \<and> invoked s2 = invoked s1 @ [(t2, k)]"
    if r: "run InMemoryIdempotentStorage ttl evs1 s1 = Some s1'" for s1'
  proof -
    have fr: "calls s1' = calls s1" "invoked s1' = invoked s1"
      using background_run_frame [OF r assms(8)] by simp_all
    have "lock_inv s1'"
      using lock_inv_run [OF li1 r] .
    moreover have "quiescent k s1'"
      using q1 fr(1) by (simp add: quiescent_def)
    moreover have "calls s1' t2 = None"
      using fr(1) s1(5) assms(5,6) by simp
    moreover have "cached_result ttl (clock s1') (get (storage s1') k) = None"
      using background_run_nofresh [OF r assms(8) si1 nf1] .
    ultimately show ?thesis
      using process_executes [of s1' k t2 ttl a2] fr(2) by auto
  qed
  then show ?thesis
    using s1(1,2,4) by blast
qed


theorem failure_reraised_and_not_cached_witness:
  "\<exists>s1. process InMemoryIdempotentStorage 10 1 ''k'' flaky_action test_processor =
           Some (Inl (Exn ''ValueError'' ''Payment failed''), s1)
         \<and> storage s1 = []
         \<and> invoked s1 = [(1, ''k'')]
         \<and> (\<exists>s2. process InMemoryIdempotentStorage 10 2 ''k'' flaky_action
                     (s1\<lparr>clock := clock s1 + 1\<rparr>) =
                   Some (Inl (Exn ''ValueError'' ''Payment failed''), s2)
                 \<and> invoked s2 = [(1, ''k''), (2, ''k'')])"
proof -
  have h1: "run InMemoryIdempotentStorage 10 [] (IdempotentProcessor_init [] 0 0) =
              Some test_processor"
    by (simp add: test_processor_def)
  have h2: "quiescent ''k'' test_processor"
    by (simp add: quiescent_def test_processor_def IdempotentProcessor_init_def)
  have h3: "cached_result 10 (clock test_processor) (get (storage test_processor) ''k'') = None"
    by (simp add: cached_result_def get_def test_processor_def IdempotentProcessor_init_def)
  have h4: "calls test_processor 1 = None" "calls test_processor 2 = None" "(1 :: nat) \<noteq> 2"
    by (simp_all add: test_processor_def IdempotentProcessor_init_def)
  have h5: "fst (flaky_action (world test_processor)) = Inl (Exn ''ValueError'' ''Payment failed'')"
    by (simp add: flaky_action_def)
  have h6: "\<forall>ev \<in> set [Tick 1 :: (nat, nat) event]. background ev"
    by simp
  obtain s1 where s1:
      "process InMemoryIdempotentStorage 10 1 ''k'' flaky_action test_processor =
         Some (Inl (Exn ''ValueError'' ''Payment failed''), s1)"
      "storage s1 = storage test_processor"
      "invoked s1 = invoked test_processor @ [(1, ''k'')]"
      "\<And>s1'. run InMemoryIdempotentStorage 10 [Tick 1] s1 = Some s1' \<Longrightarrow>
         \<exists>s2. process InMemoryIdempotentStorage 10 2 ''k'' flaky_action s1' =
                Some (fst (flaky_action (world s1')), s2)
              \<and> invoked s2 = invoked s1 @ [(2, ''k'')]"
    using failure_reraised_and_not_cached
            [where ?a1.0 = flaky_action and ?a2.0 = flaky_action and ?evs1.0 = "[Tick 1]",
             OF h1 h2 h3 h4 h5 h6]
    by blast
  have "run InMemoryIdempotentStorage 10 [Tick 1] s1 = Some (s1\<lparr>clock := clock s1 + 1\<rparr>)"
    by (simp add: step_def)
  from s1(4) [OF this] obtain s2 where
      "process InMemoryIdempotentStorage 10 2 ''k'' flaky_action (s1\<lparr>clock := clock s1 + 1\<rparr>) =
         Some (Inl (Exn ''ValueError'' ''Payment failed''), s2)"
      "invoked s2 = invoked s1 @ [(2, ''k'')]"
    by (auto simp: flaky_action_def)
  then show ?thesis
    using s1(1,2,3) by (auto simp: test_processor_def IdempotentProcessor_init_def)
qed



section \<open>The invocations of actions\<close>

lemma InMemory_ops [simp]:
  "storage_get InMemoryIdempotentStorage st k = Inr (get st k)"
  "storage_set_success InMemoryIdempotentStorage st now k r ttl =
     (None, set_success st now k r ttl)"
  "storage_cleanup_expired InMemoryIdempotentStorage st now ttl = cleanup_expired st now ttl"
  by (simp_all add: InMemoryIdempotentStorage_def)











section \<open>One key within its TTL\<close>




























section \<open>The release of line 120\<close>

text \<open>In a processor reached from its construction, a call at line 120 holds its lock.\<close>

lemma release_of_held_lock:
  assumes "run B ttl evs (IdempotentProcessor_init st w t0) = Some s"
    and "calls s tid = Some c" and "pc c = Release l outcome"
  shows "locks s l"
  using holder_locked [OF reachable_lock_inv [OF assms(1)] assms(2)] assms(3) by simp

section \<open>A raised exception under any schedule\<close>

text \<open>
  On any backend and between any other events: the step in which the action raises \<open>e\<close>
  and the steps of the \<open>finally\<close> block after it leave the store as it is, and the call
  ends with \<open>e\<close>.
\<close>

lemma raised_error_propagates:
  assumes "calls s tid = Some c" "step B ttl (Step tid) s = Some s'"
  shows "(pc c = Running l \<and> fst (action_callable c (world s)) = Inl e
            \<longrightarrow> storage s' = storage s \<and> map_option pc (calls s' tid) = Some (Release l (Inl e)))
         \<and> (pc c = Release l (Inl e)
            \<longrightarrow> storage s' = storage s \<and> map_option pc (calls s' tid) = Some (Pop (Inl e)))
         \<and> (pc c = Pop (Inl e)
            \<longrightarrow> storage s' = storage s \<and> map_option pc (calls s' tid) = Some (Done (Inl e)))"
  using assms
  by (auto simp: step_def process_step_def goto_def split: prod.splits sum.splits)

end
